theory Spec2Isabelle
  imports Main "HOL-Library.AList" "HOL-Library.Monad_Syntax"
begin

section \<open>JavaScript values and property bags\<close>

text \<open>
  The values that flow through \<^verbatim>\<open>sdk/nodejs/runtime/resource.ts\<close>: identifiers and URNs are
  strings, an absent value is \<^verbatim>\<open>undefined\<close>, and promises, outputs and resources are objects
  reached through a handle. Numbers are kept to the integers.
\<close>

datatype jsval =
    Undefined
  | Null
  | Bool bool
  | Num int
  | Str string
  | Arr "jsval list"
  | Obj "(string \<times> jsval) list"
  | Handle nat

text \<open>JavaScript's truthiness, as \<^verbatim>\<open>!id\<close>, \<^verbatim>\<open>if (outputs)\<close> and \<^verbatim>\<open>a || b\<close> read it.\<close>

fun truthy :: "jsval \<Rightarrow> bool" where
  "truthy Undefined = False"
| "truthy Null = False"
| "truthy (Bool b) = b"
| "truthy (Num n) = (n \<noteq> 0)"
| "truthy (Str s) = (s \<noteq> [])"
| "truthy (Arr xs) = True"
| "truthy (Obj kvs) = True"
| "truthy (Handle h) = True"

definition js_or :: "jsval \<Rightarrow> jsval \<Rightarrow> jsval" where
  "js_or a b = (if truthy a then a else b)"

text \<open>
  What a \<^verbatim>\<open>throw\<close> or a failing built-in raises: an \<^verbatim>\<open>Error\<close> or a \<^verbatim>\<open>TypeError\<close>, with its
  message.
\<close>

datatype error = Error string | TypeError string

text \<open>The decimal numeral of a number, as in the name of an array index.\<close>

fun digit_char :: "nat \<Rightarrow> char" where
  "digit_char n = char_of (n + 48)"

fun show_nat :: "nat \<Rightarrow> string" where
  "show_nat n = (if n < 10 then [digit_char n] else show_nat (n div 10) @ [digit_char (n mod 10)])"

text \<open>
  A property bag (\<^verbatim>\<open>Inputs\<close>, or what \<^verbatim>\<open>deserializeProperties\<close> returns) is given by its own
  enumerable properties, an association list in the order in which \<^verbatim>\<open>Object.keys\<close> lists
  them; \<^verbatim>\<open>bag[key]\<close>, for a key that \<^verbatim>\<open>Object.keys\<close> listed, reads the entry of the key.
\<close>

type_synonym bag = "(string \<times> jsval) list"

definition object_keys :: "bag \<Rightarrow> string list" where
  "object_keys b = map fst b"

definition get_prop :: "bag \<Rightarrow> string \<Rightarrow> jsval" where
  "get_prop b key = (case map_of b key of None \<Rightarrow> Undefined | Some v \<Rightarrow> v)"

text \<open>
  The object \<^verbatim>\<open>allProps\<close> is made by \<^verbatim>\<open>{}\<close> and written to: it has its own properties and a
  prototype, at first \<^verbatim>\<open>Object.prototype\<close>. There \<^verbatim>\<open>hasOwnProperty\<close> is a method and
  \<^verbatim>\<open>__proto__\<close> an accessor, whose setter puts an object or \<^verbatim>\<open>null\<close> in the place of the
  prototype and ignores any other value.
\<close>

datatype prototype = ObjectPrototype | NullPrototype | ValuePrototype jsval

record js_object =
  own :: bag
  proto :: prototype

definition new_object :: js_object where
  "new_object = \<lparr> own = [], proto = ObjectPrototype \<rparr>"

fun is_object :: "jsval \<Rightarrow> bool" where
  "is_object (Arr xs) = True"
| "is_object (Obj kvs) = True"
| "is_object (Handle h) = True"
| "is_object v = False"

text \<open>
  The names of the own properties of a value that has become the prototype: the keys of a
  plain object, the indices and \<^verbatim>\<open>length\<close> of an array. An object behind a handle is taken
  to have none of the two names that matter below, \<^verbatim>\<open>hasOwnProperty\<close> and \<^verbatim>\<open>__proto__\<close>;
  neither have \<^verbatim>\<open>Array.prototype\<close> and the classes between such a value and
  \<^verbatim>\<open>Object.prototype\<close>.
\<close>

fun value_keys :: "jsval \<Rightarrow> string list" where
  "value_keys (Obj kvs) = map fst kvs"
| "value_keys (Arr xs) = map show_nat [0..<length xs] @ [''length'']"
| "value_keys v = []"

text \<open>
  Whether a lookup of \<^verbatim>\<open>hasOwnProperty\<close> or \<^verbatim>\<open>__proto__\<close> that starts at the prototype finds
  a data property of a value before it reaches \<^verbatim>\<open>Object.prototype\<close>.
\<close>

definition shadowed :: "prototype \<Rightarrow> string \<Rightarrow> bool" where
  "shadowed p key = (case p of ValuePrototype v \<Rightarrow> key \<in> set (value_keys v) | _ \<Rightarrow> False)"

text \<open>
  \<^verbatim>\<open>allProps.hasOwnProperty(key)\<close> first reads the property \<^verbatim>\<open>hasOwnProperty\<close> of the object
  and then calls what it found. An own property of that name, or one of a value that is the
  prototype, holds a value that is no function, and a \<^verbatim>\<open>null\<close> prototype gives \<^verbatim>\<open>undefined\<close>:
  the call throws. Otherwise the method of \<^verbatim>\<open>Object.prototype\<close> answers whether the object
  has an own property \<open>key\<close>.
\<close>

definition hasOwnProperty :: "js_object \<Rightarrow> string \<Rightarrow> error + bool" where
  "hasOwnProperty obj key =
     (if ''hasOwnProperty'' \<in> set (object_keys (own obj))
         \<or> proto obj = NullPrototype \<or> shadowed (proto obj) ''hasOwnProperty''
      then Inl (TypeError ''allProps.hasOwnProperty is not a function'')
      else Inr (key \<in> set (object_keys (own obj))))"

text \<open>
  \<^verbatim>\<open>obj[key] = v\<close>, which is also what \<^verbatim>\<open>Object.assign\<close> does for each property of its
  source. An own property is overwritten in place. Without one, the key \<^verbatim>\<open>__proto__\<close> reaches
  the setter of \<^verbatim>\<open>Object.prototype\<close>, unless the prototype is \<^verbatim>\<open>null\<close> or a value with a
  property of that name, and no own property is made; any other key, found on the prototype
  chain or not, becomes a new own property. It is put last in the list: the place that an
  index-like key takes among the others is not read by \<^verbatim>\<open>resolveOutputs\<close>.
\<close>

definition set_prop :: "string \<Rightarrow> jsval \<Rightarrow> js_object \<Rightarrow> js_object" where
  "set_prop key v obj =
     (if key = ''__proto__'' \<and> key \<notin> set (object_keys (own obj))
         \<and> proto obj \<noteq> NullPrototype \<and> \<not> shadowed (proto obj) ''__proto__''
      then (if v = Null then obj\<lparr> proto := NullPrototype \<rparr>
            else if is_object v then obj\<lparr> proto := ValuePrototype v \<rparr>
            else obj)
      else obj\<lparr> own := AList.update key v (own obj) \<rparr>)"

definition object_assign :: "js_object \<Rightarrow> bag \<Rightarrow> js_object" where
  "object_assign target src = fold (\<lambda>(k, v). set_prop k v) src target"

section \<open>The property codec\<close>

text \<open>
  The codec of \<^verbatim>\<open>./rpc\<close> is an external collaborator of the file; its functions are taken as
  parameters. \<^verbatim>\<open>serializeProperty\<close> answers \<^const>\<open>Undefined\<close> where the JavaScript answers
  \<^verbatim>\<open>undefined\<close>; \<^verbatim>\<open>serializeResourceProperties\<close> also reports the resources it met inside
  the values, and answers \<^const>\<open>None\<close> when it does not complete. The type \<open>'s\<close> is the wire
  structure (a protobuf \<^verbatim>\<open>Struct\<close>), the type \<open>'r\<close> the per-property resolvers that
  \<^verbatim>\<open>transferProperties\<close> hands back (\<^verbatim>\<open>OutputResolvers\<close>).
\<close>

type_synonym resource = nat

record ('s, 'r) codec =
  serializeProperty :: "jsval \<Rightarrow> jsval"
  deserializeProperty :: "jsval \<Rightarrow> jsval"
  deserializeProperties :: "'s \<Rightarrow> bag"
  serializeResourceProperties :: "bag \<Rightarrow> (bag \<times> resource list) option"
  transferProperties :: "resource \<Rightarrow> bag \<Rightarrow> 'r"
  unknownValue :: string

section \<open>Output merge: resolveOutputs\<close>

text \<open>
  The loop \<^verbatim>\<open>for (const key of Object.keys(props))\<close> of \<^verbatim>\<open>resolveOutputs\<close>, with
  \<^verbatim>\<open>allProps\<close> as its state. A throw of \<^verbatim>\<open>allProps.hasOwnProperty(key)\<close> ends it.
\<close>

fun resolveOutputs_loop ::
  "('s, 'r) codec \<Rightarrow> bag \<Rightarrow> string list \<Rightarrow> js_object \<Rightarrow> error + js_object" where
  "resolveOutputs_loop c props [] allProps = Inr allProps"
| "resolveOutputs_loop c props (key # keys) allProps =
     (case hasOwnProperty allProps key of
        Inl e \<Rightarrow> Inl e
      | Inr present \<Rightarrow>
          if \<not> present then
            (let inputProp = serializeProperty c (get_prop props key) in
             if inputProp = Undefined then resolveOutputs_loop c props keys allProps
             else resolveOutputs_loop c props keys
                    (set_prop key (deserializeProperty c inputProp) allProps))
          else resolveOutputs_loop c props keys allProps)"

text \<open>
  \<^verbatim>\<open>resolveOutputs\<close> up to its last line: the result is the error that rejects its promise,
  or the object \<^verbatim>\<open>allProps\<close> that the function hands to \<^verbatim>\<open>resolveProperties\<close>. The engine's
  structure \<^verbatim>\<open>outputs\<close> may be missing.
\<close>

definition resolveOutputs :: "('s, 'r) codec \<Rightarrow> bag \<Rightarrow> 's option \<Rightarrow> error + js_object" where
  "resolveOutputs c props outputs =
     (let allProps = (case outputs of
                        None \<Rightarrow> new_object
                      | Some out \<Rightarrow> object_assign new_object (deserializeProperties c out))
      in resolveOutputs_loop c props (object_keys props) allProps)"

text \<open>The bag the engine returned, as the merge reads it.\<close>

definition engine_bag :: "('s, 'r) codec \<Rightarrow> 's option \<Rightarrow> bag" where
  "engine_bag c outputs = (case outputs of None \<Rightarrow> [] | Some out \<Rightarrow> deserializeProperties c out)"

text \<open>The value an input is given when the engine has none: its round trip through the codec.\<close>

definition round_trip :: "('s, 'r) codec \<Rightarrow> jsval \<Rightarrow> jsval option" where
  "round_trip c v =
     (if serializeProperty c v = Undefined then None
      else Some (deserializeProperty c (serializeProperty c v)))"

text \<open>
  A small codec for examples: a handle has no wire form and, in an input, stands for the
  resource of that number; every other value is its own wire form.
\<close>

fun is_Handle :: "jsval \<Rightarrow> bool" where
  "is_Handle (Handle h) = True"
| "is_Handle v = False"

definition example_codec :: "(bag, string list) codec" where
  "example_codec =
     \<lparr> serializeProperty = (\<lambda>v. case v of Handle h \<Rightarrow> Undefined | _ \<Rightarrow> v),
       deserializeProperty = (\<lambda>v. v),
       deserializeProperties = (\<lambda>s. s),
       serializeResourceProperties =
         (\<lambda>b. Some (filter (\<lambda>kv. \<not> is_Handle (snd kv)) b,
                     concat (map (\<lambda>kv. case snd kv of Handle r \<Rightarrow> [r] | _ \<Rightarrow> []) b))),
       transferProperties = (\<lambda>res b. map fst b),
       unknownValue = ''04da6b54-80e4-46f7-96ec-b56ff0331ba9'' \<rparr>"

section \<open>Deferred values and resources\<close>

text \<open>
  A promise that only its resolver settles: resolving a resolved promise changes nothing.
  \<^verbatim>\<open>Output.create(res, promise, performApply)\<close> pairs the promise of the value with the promise
  of the flag that says whether \<^verbatim>\<open>apply\<close> may run.
\<close>

datatype 'a promise = Pending | Resolved 'a

definition resolve :: "'a \<Rightarrow> 'a promise \<Rightarrow> 'a promise" where
  "resolve v p = (case p of Pending \<Rightarrow> Resolved v | Resolved w \<Rightarrow> Resolved w)"

record 'a Output =
  out_promise :: "'a promise"
  out_performApply :: "bool promise"

text \<open>
  What the file keeps on a \<^verbatim>\<open>Resource\<close> object: \<^verbatim>\<open>res.urn\<close> and \<^verbatim>\<open>res.id\<close>, both unset
  until \<^verbatim>\<open>prepareResource\<close> assigns them. The heap maps each resource to its object.
\<close>

record resource_state =
  urn :: "string Output option"
  ident :: "jsval Output option"

type_synonym heap = "resource \<Rightarrow> resource_state"

definition empty_heap :: heap where
  "empty_heap = (\<lambda>r. \<lparr> urn = None, ident = None \<rparr>)"

text \<open>\<^verbatim>\<open>await d.urn.promise()\<close> and \<^verbatim>\<open>await d.id.promise()\<close>: the value once it is there.\<close>

definition await_urn :: "heap \<Rightarrow> resource \<Rightarrow> string option" where
  "await_urn h d =
     (case urn (h d) of
        None \<Rightarrow> None
      | Some out \<Rightarrow> (case out_promise out of Pending \<Rightarrow> None | Resolved u \<Rightarrow> Some u))"

definition await_id :: "heap \<Rightarrow> resource \<Rightarrow> jsval option" where
  "await_id h d =
     (case ident (h d) of
        None \<Rightarrow> None
      | Some out \<Rightarrow> (case out_promise out of Pending \<Rightarrow> None | Resolved v \<Rightarrow> Some v))"

text \<open>\<^verbatim>\<open>Promise.all\<close>: every value, in order, once all of them are there.\<close>

fun promise_all :: "'a option list \<Rightarrow> 'a list option" where
  "promise_all [] = Some []"
| "promise_all (p # ps) =
     (case p of
        None \<Rightarrow> None
      | Some v \<Rightarrow> (case promise_all ps of None \<Rightarrow> None | Some vs \<Rightarrow> Some (v # vs)))"

text \<open>A JavaScript \<^verbatim>\<open>Set\<close>: its members once each, in insertion order.\<close>

definition set_add :: "'a \<Rightarrow> 'a list \<Rightarrow> 'a list" where
  "set_add x s = (if x \<in> set s then s else s @ [x])"

definition new_Set :: "'a list \<Rightarrow> 'a list" where
  "new_Set xs = fold set_add xs []"

text \<open>The text a value has inside a template literal.\<close>

definition show_int :: "int \<Rightarrow> string" where
  "show_int i = (if i < 0 then CHR ''-'' # show_nat (nat (- i)) else show_nat (nat i))"

fun join_comma :: "string list \<Rightarrow> string" where
  "join_comma [] = []"
| "join_comma [s] = s"
| "join_comma (s # t # ss) = s @ '','' @ join_comma (t # ss)"

fun js_template :: "jsval \<Rightarrow> string" where
  "js_template Undefined = ''undefined''"
| "js_template Null = ''null''"
| "js_template (Bool b) = (if b then ''true'' else ''false'')"
| "js_template (Num n) = show_int n"
| "js_template (Str s) = s"
| "js_template (Arr xs) =
     join_comma (map (\<lambda>x. if x = Undefined \<or> x = Null then [] else js_template x) xs)"
| "js_template (Obj kvs) = ''[object Object]''"
| "js_template (Handle h) = ''[object Object]''"

section \<open>Resource preparation: prepareResource\<close>

datatype depends_on = NoDependsOn | OneResource resource | ResourceArray "resource list"

record ResourceOptions =
  opt_id :: jsval
  opt_parent :: "resource option"
  opt_dependsOn :: depends_on
  opt_protect :: "bool option"
  opt_provider :: "resource option"

text \<open>
  The resolvers \<^verbatim>\<open>resolveURN\<close> and \<^verbatim>\<open>resolveID\<close> that \<^verbatim>\<open>prepareResource\<close> captures are
  closures over the promises of \<^verbatim>\<open>res.urn\<close> and \<^verbatim>\<open>res.id\<close>; here they act on the heap.
\<close>

definition resolveURN_of :: "resource \<Rightarrow> string \<Rightarrow> heap \<Rightarrow> heap" where
  "resolveURN_of res u h =
     h(res := (h res)\<lparr> urn :=
         map_option (\<lambda>out. out\<lparr> out_promise := resolve u (out_promise out) \<rparr>) (urn (h res)) \<rparr>)"

definition resolveID_of :: "resource \<Rightarrow> jsval \<Rightarrow> bool \<Rightarrow> heap \<Rightarrow> heap" where
  "resolveID_of res v performApply h =
     h(res := (h res)\<lparr> ident :=
         map_option (\<lambda>out. out\<lparr> out_promise := resolve v (out_promise out),
                                out_performApply := resolve performApply (out_performApply out) \<rparr>)
           (ident (h res)) \<rparr>)"

record 'r ResourceResolverOperation =
  resolveURN :: "string \<Rightarrow> heap \<Rightarrow> heap"
  resolveID :: "(jsval \<Rightarrow> bool \<Rightarrow> heap \<Rightarrow> heap) option"
  resolvers :: 'r
  parentURN :: "string option"
  providerRef :: "string option"
  serializedProps :: bag
  dependencies :: "string list"

text \<open>
  The part of \<^verbatim>\<open>prepareResource\<close> that runs before its first \<^verbatim>\<open>await\<close>: it assigns
  \<^verbatim>\<open>res.urn\<close>, whose \<^verbatim>\<open>performApply\<close> is \<^verbatim>\<open>Promise.resolve(true)\<close>, and for a custom resource
  \<^verbatim>\<open>res.id\<close>. The outputs that \<^verbatim>\<open>transferProperties\<close> attaches for the input properties are
  the codec's and are not kept in this heap.
\<close>

definition prepareResource_sync :: "resource \<Rightarrow> bool \<Rightarrow> heap \<Rightarrow> heap" where
  "prepareResource_sync res custom h =
     (let h1 = h(res := (h res)\<lparr> urn :=
                  Some \<lparr> out_promise = Pending, out_performApply = Resolved True \<rparr> \<rparr>)
      in if custom
         then h1(res := (h1 res)\<lparr> ident :=
                  Some \<lparr> out_promise = Pending, out_performApply = Pending \<rparr> \<rparr>)
         else h1)"


definition dependsOn_list :: "ResourceOptions \<Rightarrow> resource list" where
  "dependsOn_list opts =
     (case opt_dependsOn opts of
        ResourceArray ds \<Rightarrow> ds
      | OneResource d \<Rightarrow> [d]
      | NoDependsOn \<Rightarrow> [])"

text \<open>The loop \<^verbatim>\<open>for (const implicitDep of implicitDependencies)\<close>.\<close>

fun add_implicit :: "heap \<Rightarrow> resource list \<Rightarrow> string list \<Rightarrow> string list option" where
  "add_implicit h [] deps = Some deps"
| "add_implicit h (implicitDep # rest) deps =
     (case await_urn h implicitDep of
        None \<Rightarrow> None
      | Some u \<Rightarrow> add_implicit h rest (set_add u deps))"

text \<open>
  The rest of \<^verbatim>\<open>prepareResource\<close>, from its first \<^verbatim>\<open>await\<close> to the bundle it returns, read
  against a heap in which the awaited values are there. The result is \<^const>\<open>None\<close> as long
  as one of them is not.
\<close>

definition prepareResource_async ::
  "('s, 'r) codec \<Rightarrow> heap \<Rightarrow> resource \<Rightarrow> bool \<Rightarrow> bag \<Rightarrow> ResourceOptions
     \<Rightarrow> 'r ResourceResolverOperation option" where
  "prepareResource_async c h res custom props opts =
     (case promise_all (map (await_urn h) (dependsOn_list opts)) of
        None \<Rightarrow> None
      | Some explicitURNDeps \<Rightarrow>
     (case serializeResourceProperties c props of
        None \<Rightarrow> None
      | Some (serialized, implicitDependencies) \<Rightarrow>
     (case (case opt_parent opts of
              None \<Rightarrow> Some None
            | Some p \<Rightarrow> map_option Some (await_urn h p)) of
        None \<Rightarrow> None
      | Some parent \<Rightarrow>
     (case (if custom \<and> opt_provider opts \<noteq> None
            then (case await_urn h (the (opt_provider opts)) of
                    None \<Rightarrow> None
                  | Some providerURN \<Rightarrow>
                      (case await_id h (the (opt_provider opts)) of
                         None \<Rightarrow> None
                       | Some pid \<Rightarrow>
                           Some (Some (providerURN @ ''::'' @
                                       js_template (js_or pid (Str (unknownValue c)))))))
            else Some None) of
        None \<Rightarrow> None
      | Some provider \<Rightarrow>
     (case add_implicit h implicitDependencies (new_Set explicitURNDeps) of
        None \<Rightarrow> None
      | Some deps \<Rightarrow>
          Some \<lparr> resolveURN = resolveURN_of res,
                 resolveID = (if custom then Some (resolveID_of res) else None),
                 resolvers = transferProperties c res props,
                 parentURN = parent,
                 providerRef = provider,
                 serializedProps = serialized,
                 dependencies = deps \<rparr>)))))"

section \<open>Promises of the ordering queue\<close>

text \<open>
  \<^verbatim>\<open>runAsyncResourceOp\<close> works on promises of no value (\<^verbatim>\<open>Promise<void>\<close>): a promise is
  pending, fulfilled, or rejected with an error. Promises live in a store and are named by
  their index. A reaction is what \<^verbatim>\<open>p.then(f, g)\<close> registers on \<open>p\<close>: the handlers and the
  promise that \<^verbatim>\<open>then\<close> returns. A missing handler passes the settlement on. The three
  closures that the function creates are the handlers.
\<close>

datatype settled = Fulfilled | Rejected error

type_synonym pid = nat

datatype 'cb handler =
    ChainLink string 'cb bool
  | CallDone nat
  | Rethrow

record 'cb reaction =
  rx_source :: pid
  on_fulfilled :: "'cb handler option"
  on_rejected :: "'cb handler option"
  rx_target :: pid

text \<open>A callback that was invoked: its label, the callback, and the promise of the operation.\<close>

record 'cb invocation =
  inv_label :: string
  inv_callback :: 'cb
  inv_op :: pid

text \<open>
  The state of the process that the queue reads and writes: the flag of
  \<^verbatim>\<open>settings.serialize()\<close>, the promise store, the reactions registered on pending promises,
  the microtask queue (reactions whose promise has settled, oldest first), the module
  variables \<^verbatim>\<open>resourceChain\<close> and \<^verbatim>\<open>resourceChainLabel\<close>, the keep-alive tokens handed out
  and the calls of their \<^verbatim>\<open>done\<close>, the callbacks invoked so far, and the rejections that
  reached nobody (the process's \<^verbatim>\<open>unhandledRejection\<close> reports).
\<close>

record 'cb world =
  serialize :: bool
  promises :: "settled option list"
  reactions :: "'cb reaction list"
  microtasks :: "('cb reaction \<times> settled) list"
  resourceChain :: pid
  resourceChainLabel :: "string option"
  tokens :: nat
  released :: "nat list"
  started :: "'cb invocation list"
  unhandled :: "error list"

text \<open>\<^verbatim>\<open>let resourceChain: Promise<void> = Promise.resolve()\<close>: promise 0 is fulfilled.\<close>

definition init_world :: "bool \<Rightarrow> 'cb world" where
  "init_world ser =
     \<lparr> serialize = ser, promises = [Some Fulfilled], reactions = [], microtasks = [],
       resourceChain = 0, resourceChainLabel = None, tokens = 0, released = [],
       started = [], unhandled = [] \<rparr>"

definition state_of :: "'cb world \<Rightarrow> pid \<Rightarrow> settled option" where
  "state_of w p = (if p < length (promises w) then promises w ! p else None)"

definition next_promise :: "'cb world \<Rightarrow> pid" where
  "next_promise w = length (promises w)"

definition new_promise :: "'cb world \<Rightarrow> pid \<times> 'cb world" where
  "new_promise w = (next_promise w, w\<lparr> promises := promises w @ [None] \<rparr>)"

text \<open>
  \<^verbatim>\<open>p.then(f, g)\<close>: a new promise; the reaction waits while \<open>p\<close> is pending and is a
  microtask at once when \<open>p\<close> has settled.
\<close>

definition promise_then ::
  "pid \<Rightarrow> 'cb handler option \<Rightarrow> 'cb handler option \<Rightarrow> 'cb world \<Rightarrow> pid \<times> 'cb world" where
  "promise_then p f g w =
     (let (q, w1) = new_promise w;
          r = \<lparr> rx_source = p, on_fulfilled = f, on_rejected = g, rx_target = q \<rparr>
      in case state_of w p of
           None \<Rightarrow> (q, w1\<lparr> reactions := reactions w1 @ [r] \<rparr>)
         | Some s \<Rightarrow> (q, w1\<lparr> microtasks := microtasks w1 @ [(r, s)] \<rparr>))"

text \<open>
  Settling a pending promise makes its reactions microtasks, in the order of their
  registration; settling a settled promise does nothing. A rejection that no reaction
  waits for is reported as unhandled.
\<close>

definition settle :: "pid \<Rightarrow> settled \<Rightarrow> 'cb world \<Rightarrow> 'cb world" where
  "settle p s w =
     (if state_of w p \<noteq> None \<or> \<not> p < length (promises w) then w
      else
        (let mine = filter (\<lambda>r. rx_source r = p) (reactions w);
             others = filter (\<lambda>r. rx_source r \<noteq> p) (reactions w)
         in w\<lparr> promises := (promises w)[p := Some s],
                reactions := others,
                microtasks := microtasks w @ map (\<lambda>r. (r, s)) mine,
                unhandled := (case s of
                                Fulfilled \<Rightarrow> unhandled w
                              | Rejected e \<Rightarrow> if mine = [] then unhandled w @ [e]
                                              else unhandled w) \<rparr>))"

text \<open>
  Modelled from the spec: \<^verbatim>\<open>rpcKeepAlive\<close> is defined in \<^verbatim>\<open>./settings\<close>, outside this
  file. It acquires a process-wide keep-alive token and returns the function \<^verbatim>\<open>done\<close> that
  releases it; the process may exit when no token is outstanding. Tokens are numbered as they
  are handed out, and every call of a \<^verbatim>\<open>done\<close> is recorded.
\<close>

definition rpcKeepAlive :: "'cb world \<Rightarrow> nat \<times> 'cb world" where
  "rpcKeepAlive w = (tokens w, w\<lparr> tokens := Suc (tokens w) \<rparr>)"

definition outstanding :: "'cb world \<Rightarrow> nat set" where
  "outstanding w = set (filter (\<lambda>t. t \<notin> set (released w)) [0..<tokens w])"

section \<open>The ordering queue: runAsyncResourceOp\<close>

text \<open>
  \<^verbatim>\<open>runAsyncResourceOp(label, callback, serial)\<close>, statement by statement. The helper
  \<^verbatim>\<open>debuggablePromise\<close> returns its argument and the log lines are left out.
\<close>

definition is_serial :: "'cb world \<Rightarrow> bool option \<Rightarrow> bool" where
  "is_serial w serial = (case serial of None \<Rightarrow> serialize w | Some b \<Rightarrow> b)"

definition runAsyncResourceOp :: "string \<Rightarrow> 'cb \<Rightarrow> bool option \<Rightarrow> 'cb world \<Rightarrow> 'cb world" where
  "runAsyncResourceOp label callback serial w =
     (let serial' = is_serial w serial;
          (resourceOp, w1) =
             promise_then (resourceChain w) (Some (ChainLink label callback serial')) None w;
          (done, w2) = rpcKeepAlive w1;
          (finalOp, w3) = promise_then resourceOp (Some (CallDone done)) (Some (CallDone done)) w2;
          (propagated, w4) = promise_then resourceOp None (Some Rethrow) w3
      in if serial' then w4\<lparr> resourceChain := finalOp \<rparr> else w4)"

text \<open>
  Running a handler for the reaction it belongs to. The chain link sets the label when the
  operation is serial and invokes the callback; the promise \<^verbatim>\<open>resourceOp\<close> of the reaction
  takes on the promise that the callback returns, so it stays pending until the callback's
  work settles. \<^verbatim>\<open>done()\<close> releases the token and returns, which fulfils \<^verbatim>\<open>finalOp\<close>. The
  third handler returns \<^verbatim>\<open>Promise.reject(err)\<close>.
\<close>

fun run_handler :: "'cb handler \<Rightarrow> settled \<Rightarrow> pid \<Rightarrow> 'cb world \<Rightarrow> 'cb world" where
  "run_handler (ChainLink label callback serial') s tgt w =
     (let w1 = (if serial' then w\<lparr> resourceChainLabel := Some label \<rparr> else w)
      in w1\<lparr> started := started w1 @
                [\<lparr> inv_label = label, inv_callback = callback, inv_op = tgt \<rparr>] \<rparr>)"
| "run_handler (CallDone tok) s tgt w =
     settle tgt Fulfilled (w\<lparr> released := released w @ [tok] \<rparr>)"
| "run_handler Rethrow s tgt w = settle tgt s w"

definition run_job :: "'cb reaction \<times> settled \<Rightarrow> 'cb world \<Rightarrow> 'cb world" where
  "run_job j w =
     (let r = fst j; s = snd j
      in case (case s of Fulfilled \<Rightarrow> on_fulfilled r | Rejected e \<Rightarrow> on_rejected r) of
           None \<Rightarrow> settle (rx_target r) s w
         | Some h \<Rightarrow> run_handler h s (rx_target r) w)"

text \<open>
  What can happen to the queue: a call of \<^verbatim>\<open>runAsyncResourceOp\<close>, the next microtask, and
  the work of an invoked callback coming to its end, which settles the operation's promise.
\<close>

datatype 'cb event =
    Schedule string 'cb "bool option"
  | Tick
  | Complete pid settled

fun step :: "'cb event \<Rightarrow> 'cb world \<Rightarrow> 'cb world" where
  "step (Schedule label callback serial) w = runAsyncResourceOp label callback serial w"
| "step Tick w =
     (case microtasks w of
        [] \<Rightarrow> w
      | j # js \<Rightarrow> run_job j (w\<lparr> microtasks := js \<rparr>))"
| "step (Complete p s) w =
     (if p \<in> inv_op ` set (started w) then settle p s w else w)"

definition run :: "'cb event list \<Rightarrow> 'cb world \<Rightarrow> 'cb world" where
  "run es w = fold step es w"

definition op_started :: "'cb world \<Rightarrow> pid \<Rightarrow> bool" where
  "op_started w p = (p \<in> inv_op ` set (started w))"

section \<open>Engine-termination parking: waitForDeath\<close>

text \<open>
  \<^verbatim>\<open>function waitForDeath(): never { while (true) {} }\<close>. The loop has no exit; not returning
  is the value \<^const>\<open>None\<close>.
\<close>

partial_function (option) waitForDeath :: "unit \<Rightarrow> 'a option" where
  "waitForDeath u = waitForDeath u"

section \<open>The remote operations\<close>

text \<open>
  The error that the monitor hands to a callback carries gRPC's status code and a message;
  \<^verbatim>\<open>grpc.status.UNAVAILABLE\<close> is 14.
\<close>

record ServiceError =
  err_code :: nat
  err_message :: string

definition UNAVAILABLE :: nat where
  "UNAVAILABLE = 14"

record ReadResourceRequest =
  read_type :: string
  read_name :: string
  read_id :: jsval
  read_parent :: "string option"
  read_provider :: "string option"
  read_properties :: bag
  read_dependencies :: "string list"

record RegisterResourceRequest =
  reg_type :: string
  reg_name :: string
  reg_parent :: "string option"
  reg_custom :: bool
  reg_object :: bag
  reg_protect :: "bool option"
  reg_provider :: "string option"
  reg_dependencies :: "string list"

record 's ReadResourceResponse =
  getUrn_read :: string
  getProperties :: "'s option"

record 's RegisterResourceResponse =
  getUrn :: string
  getId :: jsval
  getObject :: "'s option"

text \<open>What the function passed to \<^verbatim>\<open>new Promise\<close> does with the promise it was given.\<close>

datatype 'a executor = Resolve 'a | Reject error

text \<open>
  The callbacks given to \<^verbatim>\<open>monitor.readResource\<close>, \<^verbatim>\<open>monitor.registerResource\<close> and
  \<^verbatim>\<open>monitor.registerResourceOutputs\<close>: \<open>err\<close> is \<^const>\<open>None\<close> when the call succeeded. The
  second and the third call \<^const>\<open>waitForDeath\<close> and so may not return.
\<close>

definition readResource_monitor_callback ::
  "jsval \<Rightarrow> string \<Rightarrow> string \<Rightarrow> ServiceError option \<Rightarrow> 'a \<Rightarrow> 'a executor" where
  "readResource_monitor_callback resolvedID name t err innerResponse =
     (case err of
        Some e \<Rightarrow>
          Reject (Error (''failed to read resource #'' @ js_template resolvedID @ '' '' @
                         [CHR 0x27] @ name @ [CHR 0x27] @ '' ['' @ t @ '']: '' @ err_message e))
      | None \<Rightarrow> Resolve innerResponse)"

definition registerResource_monitor_callback ::
  "string \<Rightarrow> string \<Rightarrow> ServiceError option \<Rightarrow> 'a \<Rightarrow> 'a executor option" where
  "registerResource_monitor_callback name t err innerResponse =
     (case err of
        Some e \<Rightarrow>
          do {
            _ \<leftarrow> (if err_code e = UNAVAILABLE then waitForDeath () else Some ());
            Some (Reject (Error (''failed to register new resource '' @ name @
                                 '' ['' @ t @ '']: '' @ err_message e)))
          }
      | None \<Rightarrow> Some (Resolve innerResponse))"

definition registerResourceOutputs_monitor_callback ::
  "ServiceError option \<Rightarrow> unit executor option" where
  "registerResourceOutputs_monitor_callback err =
     (case err of
        Some e \<Rightarrow>
          do {
            _ \<leftarrow> (if err_code e = UNAVAILABLE then waitForDeath () else Some ());
            Some (Reject (Error (err_message e)))
          }
      | None \<Rightarrow> Some (Resolve ()))"

text \<open>
  The callbacks handed to \<^verbatim>\<open>runAsyncResourceOp\<close>, each with the variables it closes over.
\<close>

datatype 'r callback =
    ReadCallback ReadResourceRequest "'r ResourceResolverOperation" jsval resource string string bag
  | RegisterCallback RegisterResourceRequest "'r ResourceResolverOperation" resource string string bag
  | OutputsCallback resource jsval

text \<open>
  The body of the callback of \<^verbatim>\<open>readResource\<close> from the answer of the monitor on: the heap
  it leaves, and either the error it throws (its own, or the one \<^verbatim>\<open>await resolveOutputs(...)\<close>
  throws) or the object it hands to \<^verbatim>\<open>resolveProperties\<close>.
  \<^verbatim>\<open>resop.resolveID!\<close> is called without a check.
\<close>

definition readResource_callback ::
  "('s, 'r) codec \<Rightarrow> 'r ResourceResolverOperation \<Rightarrow> jsval \<Rightarrow> string \<Rightarrow> string \<Rightarrow> bag
     \<Rightarrow> ServiceError option \<Rightarrow> 's ReadResourceResponse \<Rightarrow> heap \<Rightarrow> heap \<times> (error + js_object)" where
  "readResource_callback c resop resolvedID t name props err innerResponse h =
     (case readResource_monitor_callback resolvedID name t err innerResponse of
        Reject e \<Rightarrow> (h, Inl e)
      | Resolve resp \<Rightarrow>
          (let h1 = resolveURN resop (getUrn_read resp) h
           in case resolveID resop of
                None \<Rightarrow> (h1, Inl (TypeError ''resop.resolveID is not a function''))
              | Some resolveID' \<Rightarrow>
                  (resolveID' resolvedID (resolvedID \<noteq> Undefined) h1,
                   resolveOutputs c props (getProperties resp))))"

text \<open>The same for \<^verbatim>\<open>registerResource\<close>; \<^const>\<open>None\<close> when the monitor's callback never returns.\<close>

definition registerResource_callback ::
  "('s, 'r) codec \<Rightarrow> 'r ResourceResolverOperation \<Rightarrow> string \<Rightarrow> string \<Rightarrow> bag
     \<Rightarrow> ServiceError option \<Rightarrow> 's RegisterResourceResponse \<Rightarrow> heap
     \<Rightarrow> (heap \<times> (error + js_object)) option" where
  "registerResource_callback c resop t name props err innerResponse h =
     (case registerResource_monitor_callback name t err innerResponse of
        None \<Rightarrow> None
      | Some (Reject e) \<Rightarrow> Some (h, Inl e)
      | Some (Resolve resp) \<Rightarrow>
          (let h1 = resolveURN resop (getUrn resp) h;
               h2 = (case resolveID resop of
                       Some resolveID' \<Rightarrow>
                         (let id = js_or (getId resp) Undefined
                          in resolveID' id (id \<noteq> Undefined) h1)
                     | None \<Rightarrow> h1)
           in Some (h2, resolveOutputs c props (getObject resp))))"

text \<open>
  The state of the client: the heap of resources, the continuations
  \<^verbatim>\<open>resopAsync.then(async (resop) => ...)\<close> that wait for a preparation, and the ordering queue.
\<close>

datatype task =
    ReadTask resource string string bag ResourceOptions
  | RegisterTask resource string string bool bag ResourceOptions

record 'r sdk =
  heap :: heap
  tasks :: "task list"
  queue :: "'r callback world"

definition init_sdk :: "bool \<Rightarrow> 'r sdk" where
  "init_sdk ser = \<lparr> heap = empty_heap, tasks = [], queue = init_world ser \<rparr>"

text \<open>
  \<^verbatim>\<open>readResource\<close> and \<^verbatim>\<open>registerResource\<close> up to their return: the state they leave and
  the error they throw, if any.
\<close>

definition readResource ::
  "resource \<Rightarrow> string \<Rightarrow> string \<Rightarrow> bag \<Rightarrow> ResourceOptions \<Rightarrow> 'r sdk \<Rightarrow> 'r sdk \<times> error option" where
  "readResource res t name props opts st =
     (let id = opt_id opts
      in if \<not> truthy id
         then (st, Some (Error ''Cannot read resource whose options are lacking an ID value''))
         else (st\<lparr> heap := prepareResource_sync res True (heap st),
                    tasks := tasks st @ [ReadTask res t name props opts] \<rparr>, None))"

definition registerResource ::
  "resource \<Rightarrow> string \<Rightarrow> string \<Rightarrow> bool \<Rightarrow> bag \<Rightarrow> ResourceOptions \<Rightarrow> 'r sdk \<Rightarrow> 'r sdk" where
  "registerResource res t name custom props opts st =
     st\<lparr> heap := prepareResource_sync res custom (heap st),
         tasks := tasks st @ [RegisterTask res t name custom props opts] \<rparr>"

text \<open>
  The continuations, run with the bundle of a finished preparation: they build the request
  and hand the callback to \<^verbatim>\<open>runAsyncResourceOp\<close> with no third argument.
\<close>

definition readResource_request ::
  "string \<Rightarrow> string \<Rightarrow> jsval \<Rightarrow> 'r ResourceResolverOperation \<Rightarrow> ReadResourceRequest" where
  "readResource_request t name resolvedID resop =
     \<lparr> read_type = t, read_name = name, read_id = resolvedID,
       read_parent = parentURN resop, read_provider = providerRef resop,
       read_properties = serializedProps resop,
       read_dependencies = dependencies resop \<rparr>"

definition registerResource_request ::
  "string \<Rightarrow> string \<Rightarrow> bool \<Rightarrow> ResourceOptions \<Rightarrow> 'r ResourceResolverOperation
     \<Rightarrow> RegisterResourceRequest" where
  "registerResource_request t name custom opts resop =
     \<lparr> reg_type = t, reg_name = name, reg_parent = parentURN resop, reg_custom = custom,
       reg_object = serializedProps resop, reg_protect = opt_protect opts,
       reg_provider = providerRef resop, reg_dependencies = dependencies resop \<rparr>"

definition readResource_then ::
  "('s, 'r) codec \<Rightarrow> resource \<Rightarrow> string \<Rightarrow> string \<Rightarrow> bag \<Rightarrow> ResourceOptions
     \<Rightarrow> 'r ResourceResolverOperation \<Rightarrow> 'r callback world \<Rightarrow> 'r callback world" where
  "readResource_then c res t name props opts resop q =
     (let resolvedID = serializeProperty c (opt_id opts);
          req = readResource_request t name resolvedID resop;
          opLabel = ''monitor.readResource(resource:'' @ name @ ''['' @ t @ '']#...)''
      in runAsyncResourceOp opLabel (ReadCallback req resop resolvedID res t name props) None q)"

definition registerResource_then ::
  "resource \<Rightarrow> string \<Rightarrow> string \<Rightarrow> bool \<Rightarrow> bag \<Rightarrow> ResourceOptions
     \<Rightarrow> 'r ResourceResolverOperation \<Rightarrow> 'r callback world \<Rightarrow> 'r callback world" where
  "registerResource_then res t name custom props opts resop q =
     (let req = registerResource_request t name custom opts resop;
          opLabel = ''monitor.registerResource(resource:'' @ name @ ''['' @ t @ ''])''
      in runAsyncResourceOp opLabel (RegisterCallback req resop res t name props) None q)"

text \<open>
  Running the first waiting continuation whose preparation has finished is left to the
  caller; this runs a given one, and leaves the state alone while its preparation waits.
\<close>

definition run_task :: "('s, 'r) codec \<Rightarrow> task \<Rightarrow> 'r sdk \<Rightarrow> 'r sdk" where
  "run_task c tk st =
     (case tk of
        ReadTask res t name props opts \<Rightarrow>
          (case prepareResource_async c (heap st) res True props opts of
             None \<Rightarrow> st
           | Some resop \<Rightarrow>
               st\<lparr> tasks := remove1 tk (tasks st),
                   queue := readResource_then c res t name props opts resop (queue st) \<rparr>)
      | RegisterTask res t name custom props opts \<Rightarrow>
          (case prepareResource_async c (heap st) res custom props opts of
             None \<Rightarrow> st
           | Some resop \<Rightarrow>
               st\<lparr> tasks := remove1 tk (tasks st),
                   queue := registerResource_then res t name custom props opts resop (queue st) \<rparr>))"

text \<open>
  The bundle that the preparation behind a waiting continuation returns, once the values it
  awaits are there.
\<close>

definition preparation_of ::
  "('s, 'r) codec \<Rightarrow> heap \<Rightarrow> task \<Rightarrow> 'r ResourceResolverOperation option" where
  "preparation_of c h tk =
     (case tk of
        ReadTask res t name props opts \<Rightarrow> prepareResource_async c h res True props opts
      | RegisterTask res t name custom props opts \<Rightarrow>
          prepareResource_async c h res custom props opts)"

text \<open>
  \<^verbatim>\<open>registerResourceOutputs\<close>: the callback goes to \<^verbatim>\<open>runAsyncResourceOp\<close> with
  \<^verbatim>\<open>serial = false\<close>.
\<close>

definition registerResourceOutputs ::
  "resource \<Rightarrow> jsval \<Rightarrow> 'r callback world \<Rightarrow> 'r callback world" where
  "registerResourceOutputs res outputs q =
     runAsyncResourceOp ''monitor.registerResourceOutputs(...)'' (OutputsCallback res outputs)
       (Some False) q"

section \<open>Example inputs\<close>

text \<open>
  The example of the specification: resource 0 (A) depends on resource 1 (B) by
  \<^verbatim>\<open>dependsOn\<close> and has an input that refers to resource 2 (C); resources 1 and 2 have
  their URNs. The second heap is the first after resource 0 was prepared as a custom
  resource, and the bundle is the one its preparation returns. The options without an id
  are those of a read that lacks one.
\<close>

definition example_heap :: heap where
  "example_heap =
     resolveURN_of 2 ''urn:C'' (resolveURN_of 1 ''urn:B''
       (prepareResource_sync 2 True (prepareResource_sync 1 True empty_heap)))"

definition example_opts :: ResourceOptions where
  "example_opts =
     \<lparr> opt_id = Str ''i-0123'', opt_parent = None, opt_dependsOn = OneResource 1,
       opt_protect = None, opt_provider = None \<rparr>"

definition example_opts_no_id :: ResourceOptions where
  "example_opts_no_id = example_opts\<lparr> opt_id := Undefined \<rparr>"

definition example_prepared :: heap where
  "example_prepared = prepareResource_sync 0 True example_heap"

definition example_bundle :: "string list ResourceResolverOperation" where
  "example_bundle =
     \<lparr> resolveURN = resolveURN_of 0, resolveID = Some (resolveID_of 0),
       resolvers = [''ref''], parentURN = None, providerRef = None,
       serializedProps = [], dependencies = [''urn:B'', ''urn:C''] \<rparr>"

text \<open>
  Two declarations in a row, with \<^verbatim>\<open>serialize()\<close> true: resource 0 (A) depends on resource
  3, which has been prepared but has no URN yet; resource 4 (B), declared after it, depends
  on resource 1, which has its URN.
\<close>

definition example_opts_waiting :: ResourceOptions where
  "example_opts_waiting = example_opts\<lparr> opt_dependsOn := OneResource 3 \<rparr>"

definition example_sdk :: "string list sdk" where
  "example_sdk =
     registerResource 4 ''t'' ''b'' True [] example_opts
       (registerResource 0 ''t'' ''a'' True [] example_opts_waiting
          ((init_sdk True)\<lparr> heap := prepareResource_sync 3 False example_heap \<rparr>))"

text \<open>
  The same two declarations further on: the continuation of B has run; then its callback has
  been invoked, resource 3 has been given its URN and the continuation of A has run.
\<close>

definition example_sdk_b :: "string list sdk" where
  "example_sdk_b =
     run_task example_codec (RegisterTask 4 ''t'' ''b'' True [] example_opts) example_sdk"

definition example_sdk_ba :: "string list sdk" where
  "example_sdk_ba =
     run_task example_codec (RegisterTask 0 ''t'' ''a'' True [] example_opts_waiting)
       (example_sdk_b\<lparr> heap := resolveURN_of 3 ''urn:D'' (heap example_sdk_b),
                        queue := run [Tick] (queue example_sdk_b) \<rparr>)"

section \<open>Invariants of the ordering queue\<close>

text \<open>
  The three reactions that one call of \<^verbatim>\<open>runAsyncResourceOp\<close> registers: the chain link on
  \<^verbatim>\<open>resourceChain\<close>, which returns \<^verbatim>\<open>resourceOp\<close>; the reaction on \<^verbatim>\<open>resourceOp\<close> that calls
  \<^verbatim>\<open>done\<close> either way and returns \<^verbatim>\<open>finalOp\<close>; and the \<^verbatim>\<open>catch\<close> on \<^verbatim>\<open>resourceOp\<close>. When
  \<^verbatim>\<open>resourceOp\<close> is promise \<open>p\<close>, \<^verbatim>\<open>finalOp\<close> is promise \<open>Suc p\<close> and the promise of the
  \<^verbatim>\<open>catch\<close> is \<open>Suc (Suc p)\<close>.
\<close>

definition chain_link :: "'cb world \<Rightarrow> string \<Rightarrow> 'cb \<Rightarrow> bool option \<Rightarrow> 'cb reaction" where
  "chain_link w label callback serial =
     \<lparr> rx_source = resourceChain w,
       on_fulfilled = Some (ChainLink label callback (is_serial w serial)),
       on_rejected = None, rx_target = next_promise w \<rparr>"

definition final_rx :: "pid \<Rightarrow> nat \<Rightarrow> 'cb reaction" where
  "final_rx p tok =
     \<lparr> rx_source = p, on_fulfilled = Some (CallDone tok), on_rejected = Some (CallDone tok),
       rx_target = Suc p \<rparr>"

definition catch_rx :: "pid \<Rightarrow> 'cb reaction" where
  "catch_rx p =
     \<lparr> rx_source = p, on_fulfilled = None, on_rejected = Some Rethrow,
       rx_target = Suc (Suc p) \<rparr>"

text \<open>A reaction uses a token when one of its handlers is the \<^verbatim>\<open>done\<close> of that token.\<close>

definition uses :: "nat \<Rightarrow> 'cb reaction \<Rightarrow> bool" where
  "uses tok r \<longleftrightarrow> on_fulfilled r = Some (CallDone tok) \<or> on_rejected r = Some (CallDone tok)"

definition pending :: "'cb world \<Rightarrow> pid \<Rightarrow> bool" where
  "pending w p \<longleftrightarrow> p < length (promises w) \<and> state_of w p = None"

text \<open>The handler that a microtask runs.\<close>

definition selected :: "'cb reaction \<times> settled \<Rightarrow> 'cb handler option" where
  "selected j = (case snd j of Fulfilled \<Rightarrow> on_fulfilled (fst j) | Rejected e \<Rightarrow> on_rejected (fst j))"

text \<open>
  What holds of every state of the queue: every promise that is named exists, a reaction
  waits on a pending promise, a microtask carries the settlement of its promise, and no
  token is used or released before it was handed out.
\<close>

definition wf_world :: "'cb world \<Rightarrow> bool" where
  "wf_world w \<longleftrightarrow>
     resourceChain w < length (promises w)
   \<and> (\<forall>r \<in> set (reactions w).
         rx_target r < length (promises w) \<and> rx_source r < length (promises w)
         \<and> state_of w (rx_source r) = None)
   \<and> (\<forall>t \<in> set (released w). t < tokens w)
   \<and> (\<forall>j \<in> set (microtasks w).
         rx_target (fst j) < length (promises w) \<and> state_of w (rx_source (fst j)) = Some (snd j))
   \<and> (\<forall>i \<in> set (started w). inv_op i < length (promises w))
   \<and> (\<forall>r \<in> set (reactions w). \<forall>tok. uses tok r \<longrightarrow> tok < tokens w)
   \<and> (\<forall>j \<in> set (microtasks w). \<forall>tok. uses tok (fst j) \<longrightarrow> tok < tokens w)"

text \<open>
  While the promise \<open>a\<close> is pending, everything allocated after \<open>Suc a\<close> waits for it:
  the chain is \<open>a\<close> or a later promise, no later promise has settled, no microtask is
  about to settle one, and no later operation has had its callback invoked.
\<close>

definition blocked_by :: "pid \<Rightarrow> 'cb world \<Rightarrow> bool" where
  "blocked_by a w \<longleftrightarrow>
     (state_of w a = None \<longrightarrow>
        Suc a < length (promises w)
      \<and> a \<le> resourceChain w \<and> resourceChain w \<noteq> Suc a
      \<and> (\<forall>r \<in> set (reactions w). Suc a < rx_target r \<longrightarrow> rx_source r = a \<or> Suc a < rx_source r)
      \<and> (\<forall>j \<in> set (microtasks w). rx_target (fst j) \<le> Suc a)
      \<and> (\<forall>p. Suc a < p \<longrightarrow> state_of w p = None)
      \<and> (\<forall>i \<in> set (started w). inv_op i \<le> Suc a))"

text \<open>
  The token \<open>tok\<close> of the operation whose promise is \<open>p\<close>: only the reaction
  \<^const>\<open>final_rx\<close> uses it or settles \<open>Suc p\<close>; that reaction waits, is a microtask, or has
  run and released the token, exactly one of the three; \<open>Suc p\<close> is fulfilled from then
  on and pending before.
\<close>

definition tok_inv :: "pid \<Rightarrow> nat \<Rightarrow> 'cb world \<Rightarrow> bool" where
  "tok_inv p tok w \<longleftrightarrow>
      Suc p < length (promises w) \<and> tok < tokens w
    \<and> (\<forall>r \<in> set (reactions w). uses tok r \<or> rx_target r = Suc p \<longrightarrow> r = final_rx p tok)
    \<and> (\<forall>j \<in> set (microtasks w).
          uses tok (fst j) \<or> rx_target (fst j) = Suc p \<longrightarrow> fst j = final_rx p tok)
    \<and> count_list (released w) tok
        + length (filter (\<lambda>r. r = final_rx p tok) (reactions w))
        + length (filter (\<lambda>j. fst j = final_rx p tok) (microtasks w)) = 1
    \<and> state_of w (Suc p) = (if tok \<in> set (released w) then Some Fulfilled else None)
    \<and> (state_of w p = None \<longrightarrow> final_rx p tok \<in> set (reactions w))
    \<and> (\<forall>i \<in> set (started w). inv_op i \<noteq> Suc p)"

text \<open>
  The promise \<open>Suc (Suc p)\<close> that \<^verbatim>\<open>resourceOp.catch(...)\<close> returns for the operation whose
  promise is \<open>p\<close>: nothing waits on it, only the reaction \<^const>\<open>catch_rx\<close> settles it, and
  once \<open>p\<close> has settled that reaction is a microtask or has passed the settlement on,
  with a rejection reported as unhandled.
\<close>

definition catch_inv :: "pid \<Rightarrow> 'cb world \<Rightarrow> bool" where
  "catch_inv p w \<longleftrightarrow>
      Suc (Suc p) < length (promises w) \<and> resourceChain w \<noteq> Suc (Suc p)
    \<and> (\<forall>r \<in> set (reactions w).
          rx_source r \<noteq> Suc (Suc p) \<and> (rx_target r = Suc (Suc p) \<longrightarrow> r = catch_rx p))
    \<and> (\<forall>j \<in> set (microtasks w). rx_target (fst j) = Suc (Suc p) \<longrightarrow> fst j = catch_rx p)
    \<and> (\<forall>i \<in> set (started w). inv_op i \<noteq> Suc (Suc p))
    \<and> (state_of w p = None \<longrightarrow>
          catch_rx p \<in> set (reactions w) \<and> state_of w (Suc (Suc p)) = None)
    \<and> (\<forall>s. state_of w p = Some s \<longrightarrow>
          ((catch_rx p, s) \<in> set (microtasks w) \<and> state_of w (Suc (Suc p)) = None)
          \<or> (state_of w (Suc (Suc p)) = Some s
              \<and> (\<forall>e. s = Rejected e \<longrightarrow> e \<in> set (unhandled w))))"

section \<open>Properties\<close>

subsection \<open>Properties of the merge\<close>

lemma map_of_rev_unique_keys:
  "distinct (map fst xs) \<Longrightarrow> map_of (rev xs) k = map_of xs k"
proof (induction xs)
  case Nil
  then show ?case by simp
next
  case (Cons x xs)
  then have ih: "map_of (rev xs) k = map_of xs k" and fresh: "fst x \<notin> fst ` set xs"
    by simp_all
  show ?case
  proof (cases "k = fst x")
    case True
    with fresh have "map_of xs k = None"
      by (simp add: map_of_eq_None_iff)
    with ih True show ?thesis
      by (cases x) (simp add: map_add_def)
  next
    case False
    with ih show ?thesis
      by (cases x) (simp add: map_add_def split: option.splits)
  qed
qed

text \<open>A key other than \<^verbatim>\<open>__proto__\<close> is written among the own properties.\<close>

lemma set_prop_plain:
  "key \<noteq> ''__proto__'' \<Longrightarrow> set_prop key v obj = obj\<lparr> own := AList.update key v (own obj) \<rparr>"
  by (simp add: set_prop_def)

lemma map_of_fold_update:
  "map_of (fold (\<lambda>(k, v). AList.update k v) src b) k =
     (case map_of (rev src) k of Some v \<Rightarrow> Some v | None \<Rightarrow> map_of b k)"
proof (induction src arbitrary: b)
  case Nil
  then show ?case by simp
next
  case (Cons kv src)
  obtain k0 v0 where kv: "kv = (k0, v0)" by (cases kv)
  show ?case
    using Cons.IH [of "AList.update k0 v0 b"]
    by (auto simp: kv update_conv' map_add_def split: option.splits)
qed

lemma object_assign_plain:
  "''__proto__'' \<notin> fst ` set src \<Longrightarrow>
     object_assign target src
       = target\<lparr> own := fold (\<lambda>(k, v). AList.update k v) src (own target) \<rparr>"
proof (induction src arbitrary: target)
  case Nil
  then show ?case by (simp add: object_assign_def)
next
  case (Cons kv src)
  obtain k0 v0 where kv: "kv = (k0, v0)" by (cases kv)
  from Cons.prems have k0: "k0 \<noteq> ''__proto__''" and rest: "''__proto__'' \<notin> fst ` set src"
    by (auto simp: kv)
  have "object_assign target (kv # src) = object_assign (set_prop k0 v0 target) src"
    by (simp add: object_assign_def kv)
  also have "\<dots> = (set_prop k0 v0 target)
                     \<lparr> own := fold (\<lambda>(k, v). AList.update k v) src (own (set_prop k0 v0 target)) \<rparr>"
    using rest by (rule Cons.IH)
  finally show ?case
    by (simp add: set_prop_plain [OF k0] kv)
qed

lemma keys_iff_map_of: "k \<in> set (object_keys b) \<longleftrightarrow> map_of b k \<noteq> None"
  by (simp add: object_keys_def map_of_eq_None_iff)

text \<open>
  The loop on an object that still has \<^verbatim>\<open>Object.prototype\<close> and no own property
  \<^verbatim>\<open>hasOwnProperty\<close>, over keys that are neither of the two names.
\<close>

lemma resolveOutputs_loop_plain:
  assumes "proto allProps = ObjectPrototype"
      and "map_of (own allProps) ''hasOwnProperty'' = None"
      and "''hasOwnProperty'' \<notin> set keys"
      and "''__proto__'' \<notin> set keys"
  shows "\<exists>r. resolveOutputs_loop c props keys allProps = Inr r
            \<and> proto r = ObjectPrototype
            \<and> map_of (own r) k =
                (case map_of (own allProps) k of
                   Some v \<Rightarrow> Some v
                 | None \<Rightarrow> if k \<in> set keys then round_trip c (get_prop props k) else None)"
  using assms
proof (induction keys arbitrary: allProps)
  case Nil
  then show ?case by (simp split: option.splits)
next
  case (Cons key keys)
  from Cons.prems have key: "key \<noteq> ''hasOwnProperty''" "key \<noteq> ''__proto__''"
    and rest: "''hasOwnProperty'' \<notin> set keys" "''__proto__'' \<notin> set keys"
    by auto
  have has: "hasOwnProperty allProps key = Inr (map_of (own allProps) key \<noteq> None)"
    using Cons.prems(1,2)
    by (simp add: hasOwnProperty_def shadowed_def keys_iff_map_of)
  show ?case
  proof (cases "map_of (own allProps) key \<noteq> None
                \<or> serializeProperty c (get_prop props key) = Undefined")
    case True
    then have step: "resolveOutputs_loop c props (key # keys) allProps
                       = resolveOutputs_loop c props keys allProps"
      by (auto simp: has Let_def)
    from Cons.IH [OF Cons.prems(1,2) rest] True show ?thesis
      unfolding step by (auto simp: round_trip_def split: option.splits)
  next
    case False
    let ?v = "deserializeProperty c (serializeProperty c (get_prop props key))"
    let ?obj = "set_prop key ?v allProps"
    from False have step: "resolveOutputs_loop c props (key # keys) allProps
                       = resolveOutputs_loop c props keys ?obj"
      by (simp add: has Let_def)
    have obj: "?obj = allProps\<lparr> own := AList.update key ?v (own allProps) \<rparr>"
      using key(2) by (rule set_prop_plain)
    have p: "proto ?obj = ObjectPrototype"
      using Cons.prems(1) by (simp add: obj)
    have h: "map_of (own ?obj) ''hasOwnProperty'' = None"
      using Cons.prems(2) key(1) by (simp add: obj update_conv')
    have m: "map_of (own ?obj) k = (if k = key then Some ?v else map_of (own allProps) k)"
      by (simp add: obj update_conv')
    from Cons.IH [OF p h rest] False show ?thesis
      unfolding step m by (auto simp: round_trip_def split: option.splits if_splits)
  qed
qed

text \<open>
  For bags in which no key is \<^verbatim>\<open>hasOwnProperty\<close> or \<^verbatim>\<open>__proto__\<close>, the merge ends normally
  and the object it produces holds, for a key the engine returned, the engine's value; for
  any other key of the inputs, the input after its round trip through serialize and
  deserialize; and no property for a key whose serialization is undefined or that is in
  neither bag.
\<close>

theorem resolveOutputs_merge:
  assumes "distinct (map fst (engine_bag c outputs))"
      and "''hasOwnProperty'' \<notin> fst ` set (engine_bag c outputs) \<union> fst ` set props"
      and "''__proto__'' \<notin> fst ` set (engine_bag c outputs) \<union> fst ` set props"
  shows "\<exists>allProps.
           resolveOutputs c props outputs = Inr allProps
         \<and> proto allProps = ObjectPrototype
         \<and> map_of (own allProps) k =
             (case map_of (engine_bag c outputs) k of
                Some v \<Rightarrow> Some v
              | None \<Rightarrow> (case map_of props k of
                            None \<Rightarrow> None
                          | Some v \<Rightarrow> round_trip c v))"
proof -
  let ?start = "case outputs of
                  None \<Rightarrow> new_object
                | Some out \<Rightarrow> object_assign new_object (deserializeProperties c out)"
  have start: "?start = \<lparr> own = fold (\<lambda>(k, v). AList.update k v) (engine_bag c outputs) [],
                          proto = ObjectPrototype \<rparr>"
  proof (cases outputs)
    case None
    then show ?thesis by (simp add: engine_bag_def new_object_def)
  next
    case (Some out)
    with assms(3) have "''__proto__'' \<notin> fst ` set (deserializeProperties c out)"
      by (simp add: engine_bag_def)
    then show ?thesis
      using Some by (simp add: engine_bag_def object_assign_plain new_object_def)
  qed
  have eng: "map_of (own ?start) k' = map_of (engine_bag c outputs) k'" for k'
    unfolding start
    using map_of_rev_unique_keys [OF assms(1), of k']
    by (simp add: map_of_fold_update split: option.splits)
  have p: "proto ?start = ObjectPrototype"
    unfolding start by simp
  have h: "map_of (own ?start) ''hasOwnProperty'' = None"
    unfolding eng using assms(2) by (simp add: map_of_eq_None_iff)
  have k1: "''hasOwnProperty'' \<notin> set (object_keys props)"
    using assms(2) by (simp add: object_keys_def)
  have k2: "''__proto__'' \<notin> set (object_keys props)"
    using assms(3) by (simp add: object_keys_def)
  from resolveOutputs_loop_plain [OF p h k1 k2, of c props k]
  obtain r where r: "resolveOutputs_loop c props (object_keys props) ?start = Inr r"
      "proto r = ObjectPrototype"
      "map_of (own r) k =
         (case map_of (own ?start) k of
            Some v \<Rightarrow> Some v
          | None \<Rightarrow> if k \<in> set (object_keys props) then round_trip c (get_prop props k) else None)"
    by blast
  have "resolveOutputs c props outputs = Inr r"
    using r(1) by (simp add: resolveOutputs_def Let_def)
  moreover have "map_of (own r) k =
             (case map_of (engine_bag c outputs) k of
                Some v \<Rightarrow> Some v
              | None \<Rightarrow> (case map_of props k of
                            None \<Rightarrow> None
                          | Some v \<Rightarrow> round_trip c v))"
    unfolding r(3) eng
    by (auto simp: keys_iff_map_of get_prop_def split: option.splits)
  ultimately show ?thesis
    using r(2) by blast
qed

lemmas merge_defs =
  resolveOutputs_def example_codec_def object_assign_def set_prop_def object_keys_def
  hasOwnProperty_def get_prop_def new_object_def shadowed_def

text \<open>
  The example of the specification: the engine returns \<open>foo\<close>, the inputs are \<open>foo\<close>,
  \<open>bar\<close> and a \<open>baz\<close> that has no wire form.
\<close>

theorem resolveOutputs_merge_witness:
  "resolveOutputs example_codec
      [(''foo'', Str ''y''), (''bar'', Str ''z''), (''baz'', Handle 0)]
      (Some [(''foo'', Str ''x'')])
    = Inr \<lparr> own = [(''foo'', Str ''x''), (''bar'', Str ''z'')], proto = ObjectPrototype \<rparr>
   \<and> (\<exists>allProps.
        resolveOutputs example_codec
          [(''foo'', Str ''y''), (''bar'', Str ''z''), (''baz'', Handle 0)]
          (Some [(''foo'', Str ''x'')]) = Inr allProps
      \<and> map_of (own allProps) ''baz'' = None)"
proof -
  have d: "distinct (map fst (engine_bag example_codec (Some [(''foo'', Str ''x'')])))"
    by (simp add: engine_bag_def example_codec_def)
  have a: "''hasOwnProperty'' \<notin> fst ` set (engine_bag example_codec (Some [(''foo'', Str ''x'')]))
             \<union> fst ` set [(''foo'', Str ''y''), (''bar'', Str ''z''), (''baz'', Handle 0)]"
    by (simp add: engine_bag_def example_codec_def)
  have b: "''__proto__'' \<notin> fst ` set (engine_bag example_codec (Some [(''foo'', Str ''x'')]))
             \<union> fst ` set [(''foo'', Str ''y''), (''bar'', Str ''z''), (''baz'', Handle 0)]"
    by (simp add: engine_bag_def example_codec_def)
  have e: "resolveOutputs example_codec
      [(''foo'', Str ''y''), (''bar'', Str ''z''), (''baz'', Handle 0)]
      (Some [(''foo'', Str ''x'')])
    = Inr \<lparr> own = [(''foo'', Str ''x''), (''bar'', Str ''z'')], proto = ObjectPrototype \<rparr>"
    by (simp add: merge_defs)
  from resolveOutputs_merge [OF d a b, of "''baz''"] e
  show ?thesis
    by (simp add: engine_bag_def example_codec_def round_trip_def)
qed

text \<open>
  Claim C3, at the inputs where the code leaves it. When the engine returns a property named
  \<^verbatim>\<open>hasOwnProperty\<close>, \<^verbatim>\<open>Object.assign\<close> makes it an own property of \<^verbatim>\<open>allProps\<close>, and the
  test \<^verbatim>\<open>allProps.hasOwnProperty(key)\<close> for the first input throws a \<^verbatim>\<open>TypeError\<close>: no merged
  bag is produced. An input named \<^verbatim>\<open>hasOwnProperty\<close> that is not the last one does the same
  once the loop has copied it. A property named \<^verbatim>\<open>__proto__\<close>, of the engine or of the
  inputs, goes to the setter of the prototype and is missing from the merged bag; when its
  value is \<^verbatim>\<open>null\<close> the object loses its prototype and the next test throws.
\<close>

theorem resolveOutputs_special_keys:
  "resolveOutputs example_codec
      [(''foo'', Str ''y''), (''bar'', Str ''z'')]
      (Some [(''foo'', Str ''x''), (''hasOwnProperty'', Str ''h'')])
    = Inl (TypeError ''allProps.hasOwnProperty is not a function'')
   \<and> resolveOutputs example_codec
      [(''hasOwnProperty'', Str ''h''), (''bar'', Str ''z'')] (Some [(''foo'', Str ''x'')])
    = Inl (TypeError ''allProps.hasOwnProperty is not a function'')
   \<and> resolveOutputs example_codec
      [(''bar'', Str ''z'')] (Some [(''foo'', Str ''x''), (''__proto__'', Str ''p'')])
    = Inr \<lparr> own = [(''foo'', Str ''x''), (''bar'', Str ''z'')], proto = ObjectPrototype \<rparr>
   \<and> resolveOutputs example_codec
      [(''__proto__'', Str ''p''), (''bar'', Str ''z'')] (Some [(''foo'', Str ''x'')])
    = Inr \<lparr> own = [(''foo'', Str ''x''), (''bar'', Str ''z'')], proto = ObjectPrototype \<rparr>
   \<and> resolveOutputs example_codec
      [(''bar'', Str ''z'')] (Some [(''foo'', Str ''x''), (''__proto__'', Null)])
    = Inl (TypeError ''allProps.hasOwnProperty is not a function'')"
  by (simp add: merge_defs)

subsection \<open>Properties of the preparation\<close>










lemma prepareResource_async_resolvers:
  assumes "prepareResource_async c h res custom props opts = Some resop"
  shows "resolveURN resop = resolveURN_of res"
    and "resolveID resop = (if custom then Some (resolveID_of res) else None)"
  using assms
  by (auto simp: prepareResource_async_def split: option.splits if_splits)


lemma example_prepare:
  "prepareResource_async example_codec example_heap 0 True [(''ref'', Handle 2)] example_opts
     = Some example_bundle"
  by (simp add: example_bundle_def prepareResource_async_def example_heap_def example_opts_def await_urn_def
        resolveURN_of_def prepareResource_sync_def empty_heap_def resolve_def
        example_codec_def dependsOn_list_def new_Set_def set_add_def)


subsection \<open>Properties of the remote operations\<close>

lemma waitForDeath_never: "waitForDeath u = None"
proof (cases "waitForDeath u :: 'a option")
  case None
  then show ?thesis .
next
  case (Some y)
  have False
    by (rule waitForDeath.raw_induct [where P = "\<lambda>_ _. False", OF _ Some])
  then show ?thesis ..
qed

text \<open>
  Claim C1, at the input where the code leaves it. When the monitor answers a read with the
  status \<^verbatim>\<open>UNAVAILABLE\<close>, the callback of \<^verbatim>\<open>readResource\<close> rejects the promise with the
  prepared error, so the operation fails with it and changes nothing on the heap; the
  callbacks of \<^verbatim>\<open>registerResource\<close> and \<^verbatim>\<open>registerResourceOutputs\<close> call \<^verbatim>\<open>waitForDeath\<close> on
  the same answer and never return.
\<close>

theorem readResource_unavailable_is_raised:
  "readResource_monitor_callback rid name t
       (Some \<lparr> err_code = UNAVAILABLE, err_message = m \<rparr>) resp
     = Reject (Error (''failed to read resource #'' @ js_template rid @ '' '' @
                      [CHR 0x27] @ name @ [CHR 0x27] @ '' ['' @ t @ '']: '' @ m))
   \<and> readResource_callback c resop rid t name props
       (Some \<lparr> err_code = UNAVAILABLE, err_message = m \<rparr>) resp h
     = (h, Inl (Error (''failed to read resource #'' @ js_template rid @ '' '' @
                       [CHR 0x27] @ name @ [CHR 0x27] @ '' ['' @ t @ '']: '' @ m)))
   \<and> registerResource_monitor_callback name t
       (Some \<lparr> err_code = UNAVAILABLE, err_message = m \<rparr>) resp' = None
   \<and> registerResource_callback c resop t name props
       (Some \<lparr> err_code = UNAVAILABLE, err_message = m \<rparr>) resp'' h = None
   \<and> registerResourceOutputs_monitor_callback
       (Some \<lparr> err_code = UNAVAILABLE, err_message = m \<rparr>) = None"
  by (simp add: readResource_monitor_callback_def registerResource_monitor_callback_def
        registerResourceOutputs_monitor_callback_def readResource_callback_def
        registerResource_callback_def waitForDeath_never)

text \<open>
  Claim C6. A call of \<^verbatim>\<open>readResource\<close> whose \<^verbatim>\<open>opts.id\<close> is missing (or falsy, as the test
  \<^verbatim>\<open>!id\<close> reads it) throws and leaves the whole state as it was: no resource was prepared,
  no continuation waits and the queue, through which every remote call goes, is untouched.
  With an id the call throws nothing, prepares the resource and registers its continuation.
\<close>

theorem readResource_missing_id:
  "(\<not> truthy (opt_id opts) \<longrightarrow>
      readResource res t name props opts st
        = (st, Some (Error ''Cannot read resource whose options are lacking an ID value'')))
   \<and> (truthy (opt_id opts) \<longrightarrow>
      snd (readResource res t name props opts st) = None
      \<and> heap (fst (readResource res t name props opts st))
          = prepareResource_sync res True (heap st)
      \<and> tasks (fst (readResource res t name props opts st))
          = tasks st @ [ReadTask res t name props opts]
      \<and> queue (fst (readResource res t name props opts st)) = queue st)"
  by (simp add: readResource_def Let_def)

theorem readResource_missing_id_witness:
  "readResource 0 ''t'' ''a'' [] example_opts_no_id (init_sdk True :: unit sdk)
     = (init_sdk True, Some (Error ''Cannot read resource whose options are lacking an ID value''))
   \<and> snd (readResource 0 ''t'' ''a'' [] example_opts (init_sdk True :: unit sdk)) = None
   \<and> tasks (fst (readResource 0 ''t'' ''a'' [] example_opts (init_sdk True :: unit sdk)))
       = [ReadTask 0 ''t'' ''a'' [] example_opts]"
proof -
  have n: "\<not> truthy (opt_id example_opts_no_id)"
    by (simp add: example_opts_no_id_def)
  have y: "truthy (opt_id example_opts)"
    by (simp add: example_opts_def)
  from readResource_missing_id [of example_opts_no_id 0 "''t''" "''a''" "[]" "init_sdk True :: unit sdk"] n
       readResource_missing_id [of example_opts 0 "''t''" "''a''" "[]" "init_sdk True :: unit sdk"] y
  show ?thesis
    by (simp add: init_sdk_def)
qed

text \<open>
  Claim C7. When the registration of a custom resource succeeds, the callback ends with
  what \<^verbatim>\<open>await resolveOutputs(...)\<close> gives, its last statement, and has before that resolved
  \<^verbatim>\<open>res.id\<close>: to the id of the engine's answer with \<^verbatim>\<open>performApply\<close> true when
  that id is truthy, and to \<^verbatim>\<open>undefined\<close> with \<^verbatim>\<open>performApply\<close> false when it is absent or
  the empty string (\<^verbatim>\<open>resp.getId() || undefined\<close>). The value is never a falsy one other
  than \<^verbatim>\<open>undefined\<close>.
\<close>

theorem registerResource_id_collapse:
  assumes "prepareResource_async c h0 res True props opts = Some resop"
      and "ident (h res) = Some \<lparr> out_promise = Pending, out_performApply = Pending \<rparr>"
  shows "\<exists>h'.
           registerResource_callback c resop t name props None resp h
             = Some (h', resolveOutputs c props (getObject resp))
         \<and> ident (h' res) =
             Some \<lparr> out_promise = Resolved (if truthy (getId resp) then getId resp else Undefined),
                    out_performApply = Resolved (truthy (getId resp)) \<rparr>
         \<and> (\<forall>v. out_promise (the (ident (h' res))) = Resolved v \<longrightarrow> v = Undefined \<or> truthy v)"
  using assms(2) prepareResource_async_resolvers [OF assms(1)]
  by (auto simp: registerResource_callback_def registerResource_monitor_callback_def Let_def
        resolveURN_of_def resolveID_of_def resolve_def js_or_def)

lemma example_resolveOutputs:
  "resolveOutputs example_codec [(''ref'', Handle 2)] None = Inr new_object"
  by (simp add: merge_defs)

lemma example_prepared_ident:
  "ident (example_prepared 0) = Some \<lparr> out_promise = Pending, out_performApply = Pending \<rparr>"
  by (simp add: example_prepared_def prepareResource_sync_def)


theorem registerResource_id_collapse_witness:
  "(\<exists>h'.
      registerResource_callback example_codec example_bundle ''t'' ''a'' [(''ref'', Handle 2)] None
        \<lparr> getUrn = ''urn:A'', getId = Str [], getObject = None \<rparr> example_prepared
        = Some (h', Inr new_object)
      \<and> ident (h' 0) = Some \<lparr> out_promise = Resolved Undefined, out_performApply = Resolved False \<rparr>)
   \<and> (\<exists>h'.
      registerResource_callback example_codec example_bundle ''t'' ''a'' [(''ref'', Handle 2)] None
        \<lparr> getUrn = ''urn:A'', getId = Str ''i-42'', getObject = None \<rparr> example_prepared
        = Some (h', Inr new_object)
      \<and> ident (h' 0) = Some \<lparr> out_promise = Resolved (Str ''i-42''),
                                out_performApply = Resolved True \<rparr>)"
  using registerResource_id_collapse
          [where h = example_prepared and res = 0 and t = "''t''" and name = "''a''"
             and resp = "\<lparr> getUrn = ''urn:A'', getId = Str [], getObject = None \<rparr>",
           OF example_prepare example_prepared_ident]
        registerResource_id_collapse
          [where h = example_prepared and res = 0 and t = "''t''" and name = "''a''"
             and resp = "\<lparr> getUrn = ''urn:A'', getId = Str ''i-42'', getObject = None \<rparr>",
           OF example_prepare example_prepared_ident]
  by (auto simp: example_resolveOutputs)



text \<open>
  Claim C10. For a custom and for a composite resource alike, \<^verbatim>\<open>res.urn\<close> leaves the
  synchronous part of the preparation (so the call of \<^verbatim>\<open>registerResource\<close> or
  \<^verbatim>\<open>readResource\<close>, before any remote call) with \<^verbatim>\<open>performApply\<close> resolved to true and its
  value pending; the resolver \<^verbatim>\<open>resolveURN\<close> of the bundle, which the callbacks call with the
  engine's answer, then resolves the value and leaves \<^verbatim>\<open>performApply\<close> true.
\<close>

theorem prepareResource_urn_performApply:
  "urn (heap (registerResource res t name custom props opts st) res)
     = Some \<lparr> out_promise = Pending, out_performApply = Resolved True \<rparr>
   \<and> (truthy (opt_id opts) \<longrightarrow>
        urn (heap (fst (readResource res t name props opts st)) res)
          = Some \<lparr> out_promise = Pending, out_performApply = Resolved True \<rparr>)
   \<and> (prepareResource_async c h0 res custom props opts = Some resop \<longrightarrow>
        urn (resolveURN resop u (prepareResource_sync res custom h) res)
          = Some \<lparr> out_promise = Resolved u, out_performApply = Resolved True \<rparr>)"
  using prepareResource_async_resolvers(1) [of c h0 res custom props opts resop]
  by (auto simp: registerResource_def readResource_def prepareResource_sync_def Let_def
        resolveURN_of_def resolve_def)

theorem prepareResource_urn_performApply_witness:
  "urn (heap (registerResource 0 ''t'' ''a'' False [] example_opts (init_sdk True :: unit sdk)) 0)
     = Some \<lparr> out_promise = Pending, out_performApply = Resolved True \<rparr>
   \<and> urn (heap (fst (readResource 0 ''t'' ''a'' [] example_opts (init_sdk True :: unit sdk))) 0)
     = Some \<lparr> out_promise = Pending, out_performApply = Resolved True \<rparr>
   \<and> urn (resolveURN example_bundle ''urn:A'' example_prepared 0)
     = Some \<lparr> out_promise = Resolved ''urn:A'', out_performApply = Resolved True \<rparr>"
proof -
  have y: "truthy (opt_id example_opts)"
    by (simp add: example_opts_def)
  from prepareResource_urn_performApply
         [where res = 0 and t = "''t''" and name = "''a''" and custom = False and props = "[]"
            and opts = example_opts and st = "init_sdk True :: unit sdk"
            and c = example_codec and ?h0.0 = example_heap and resop = example_bundle
            and u = "''urn:A''" and h = example_heap]
       prepareResource_urn_performApply
         [where res = 0 and custom = True and props = "[(''ref'', Handle 2)]"
            and opts = example_opts and c = example_codec and ?h0.0 = example_heap
            and resop = example_bundle and u = "''urn:A''" and h = example_heap
            and st = "init_sdk True :: unit sdk" and t = "''t''" and name = "''a''"]
       y example_prepare
  show ?thesis
    by (simp add: example_prepared_def)
qed

subsection \<open>Properties of the ordering queue\<close>

lemma runAsyncResourceOp_eq:
  "runAsyncResourceOp label callback serial w =
     w\<lparr> promises := promises w @ [None, None, None],
        reactions := reactions w
           @ (case state_of w (resourceChain w) of
                None \<Rightarrow> [chain_link w label callback serial] | Some s \<Rightarrow> [])
           @ [final_rx (next_promise w) (tokens w), catch_rx (next_promise w)],
        microtasks := microtasks w
           @ (case state_of w (resourceChain w) of
                None \<Rightarrow> [] | Some s \<Rightarrow> [(chain_link w label callback serial, s)]),
        tokens := Suc (tokens w),
        resourceChain := (if is_serial w serial then Suc (next_promise w) else resourceChain w) \<rparr>"
  by (cases "state_of w (resourceChain w)")
     (simp_all add: runAsyncResourceOp_def promise_then_def new_promise_def rpcKeepAlive_def
        Let_def state_of_def next_promise_def nth_append chain_link_def final_rx_def catch_rx_def)

lemma wf_init: "wf_world (init_world ser)"
  by (simp add: wf_world_def init_world_def)

lemma settle_noop: "\<not> pending w p \<Longrightarrow> settle p s w = w"
  by (auto simp: settle_def pending_def)

lemma settle_eq:
  "pending w p \<Longrightarrow>
   settle p s w =
     w\<lparr> promises := (promises w)[p := Some s],
        reactions := filter (\<lambda>r. rx_source r \<noteq> p) (reactions w),
        microtasks := microtasks w @ map (\<lambda>r. (r, s)) (filter (\<lambda>r. rx_source r = p) (reactions w)),
        unhandled := (case s of
                        Fulfilled \<Rightarrow> unhandled w
                      | Rejected e \<Rightarrow> if filter (\<lambda>r. rx_source r = p) (reactions w) = []
                                      then unhandled w @ [e] else unhandled w) \<rparr>"
  by (simp add: settle_def Let_def pending_def)

lemma settle_simps:
  "length (promises (settle p s w)) = length (promises w)"
  "state_of (settle p s w) q = (if q = p \<and> pending w p then Some s else state_of w q)"
  "reactions (settle p s w) =
     (if pending w p then filter (\<lambda>r. rx_source r \<noteq> p) (reactions w) else reactions w)"
  "microtasks (settle p s w) =
     (if pending w p
      then microtasks w @ map (\<lambda>r. (r, s)) (filter (\<lambda>r. rx_source r = p) (reactions w))
      else microtasks w)"
  "started (settle p s w) = started w"
  "released (settle p s w) = released w"
  "tokens (settle p s w) = tokens w"
  "resourceChain (settle p s w) = resourceChain w"
  "resourceChainLabel (settle p s w) = resourceChainLabel w"
  "serialize (settle p s w) = serialize w"
  by (simp_all add: settle_def Let_def pending_def state_of_def nth_list_update)

lemma wf_settle: "wf_world w \<Longrightarrow> wf_world (settle p s w)"
  by (auto simp: wf_world_def settle_simps pending_def)

lemma runAsync_simps:
  "length (promises (runAsyncResourceOp label callback serial w)) = length (promises w) + 3"
  "state_of (runAsyncResourceOp label callback serial w) q = state_of w q"
  "reactions (runAsyncResourceOp label callback serial w) =
     reactions w
       @ (case state_of w (resourceChain w) of
            None \<Rightarrow> [chain_link w label callback serial] | Some s \<Rightarrow> [])
       @ [final_rx (next_promise w) (tokens w), catch_rx (next_promise w)]"
  "microtasks (runAsyncResourceOp label callback serial w) =
     microtasks w
       @ (case state_of w (resourceChain w) of
            None \<Rightarrow> [] | Some s \<Rightarrow> [(chain_link w label callback serial, s)])"
  "started (runAsyncResourceOp label callback serial w) = started w"
  "released (runAsyncResourceOp label callback serial w) = released w"
  "unhandled (runAsyncResourceOp label callback serial w) = unhandled w"
  "tokens (runAsyncResourceOp label callback serial w) = Suc (tokens w)"
  "resourceChain (runAsyncResourceOp label callback serial w) =
     (if is_serial w serial then Suc (next_promise w) else resourceChain w)"
  "resourceChainLabel (runAsyncResourceOp label callback serial w) = resourceChainLabel w"
  "serialize (runAsyncResourceOp label callback serial w) = serialize w"
  by (auto simp: runAsyncResourceOp_eq state_of_def nth_append nth_Cons')

lemma rx_simps [simp]:
  "rx_source (chain_link w label callback serial) = resourceChain w"
  "rx_target (chain_link w label callback serial) = next_promise w"
  "on_fulfilled (chain_link w label callback serial)
     = Some (ChainLink label callback (is_serial w serial))"
  "on_rejected (chain_link w label callback serial) = None"
  "rx_source (final_rx p tok) = p"
  "rx_target (final_rx p tok) = Suc p"
  "on_fulfilled (final_rx p tok) = Some (CallDone tok)"
  "on_rejected (final_rx p tok) = Some (CallDone tok)"
  "rx_source (catch_rx p) = p"
  "rx_target (catch_rx p) = Suc (Suc p)"
  "on_fulfilled (catch_rx p) = None"
  "on_rejected (catch_rx p) = Some Rethrow"
  by (simp_all add: chain_link_def final_rx_def catch_rx_def)

lemma state_of_out_of_range [simp]: "\<not> q < length (promises w) \<Longrightarrow> state_of w q = None"
  by (simp add: state_of_def)

lemma wf_runAsyncResourceOp:
  assumes "wf_world w"
  shows "wf_world (runAsyncResourceOp label callback serial w)"
proof -
  let ?w' = "runAsyncResourceOp label callback serial w"
  from assms have c: "resourceChain w < length (promises w)"
    and r: "\<And>r. r \<in> set (reactions w) \<Longrightarrow>
              rx_target r < length (promises w) \<and> rx_source r < length (promises w)
              \<and> state_of w (rx_source r) = None"
    and rel: "\<And>t. t \<in> set (released w) \<Longrightarrow> t < tokens w"
    and j: "\<And>j. j \<in> set (microtasks w) \<Longrightarrow>
              rx_target (fst j) < length (promises w) \<and> state_of w (rx_source (fst j)) = Some (snd j)"
    and i: "\<And>i. i \<in> set (started w) \<Longrightarrow> inv_op i < length (promises w)"
    and u: "\<And>r tok. r \<in> set (reactions w) \<Longrightarrow> uses tok r \<Longrightarrow> tok < tokens w"
    and v: "\<And>j tok. j \<in> set (microtasks w) \<Longrightarrow> uses tok (fst j) \<Longrightarrow> tok < tokens w"
    unfolding wf_world_def by blast+
  have 1: "resourceChain ?w' < length (promises ?w')"
    using c by (simp add: runAsync_simps next_promise_def)
  have 2: "rx_target r < length (promises ?w') \<and> rx_source r < length (promises ?w')
            \<and> state_of ?w' (rx_source r) = None"
    if "r \<in> set (reactions ?w')" for r
    using that r [of r] c
    by (auto simp: runAsync_simps next_promise_def split: option.splits)
  have 3: "rx_target (fst j) < length (promises ?w')
            \<and> state_of ?w' (rx_source (fst j)) = Some (snd j)" if "j \<in> set (microtasks ?w')" for j
    using that j [of j]
    by (auto simp: runAsync_simps next_promise_def split: option.splits)
  have 4: "inv_op i < length (promises ?w')" if "i \<in> set (started ?w')" for i
    using that i [of i] by (simp add: runAsync_simps)
  have 5: "tok < tokens ?w'" if "r \<in> set (reactions ?w')" "uses tok r" for r tok
    using that u [of r tok]
    by (auto simp: runAsync_simps uses_def split: option.splits)
  have 6: "tok < tokens ?w'" if "j \<in> set (microtasks ?w')" "uses tok (fst j)" for j tok
    using that v [of j tok]
    by (auto simp: runAsync_simps uses_def split: option.splits)
  have 7: "t < tokens ?w'" if "t \<in> set (released ?w')" for t
    using that rel [of t] by (simp add: runAsync_simps)
  show ?thesis
    unfolding wf_world_def using 1 2 3 4 5 6 7 by blast
qed

lemma state_of_updates [simp]:
  "state_of (w\<lparr> reactions := rs \<rparr>) = state_of w"
  "state_of (w\<lparr> microtasks := js \<rparr>) = state_of w"
  "state_of (w\<lparr> resourceChain := c \<rparr>) = state_of w"
  "state_of (w\<lparr> resourceChainLabel := l \<rparr>) = state_of w"
  "state_of (w\<lparr> tokens := n \<rparr>) = state_of w"
  "state_of (w\<lparr> released := ts \<rparr>) = state_of w"
  "state_of (w\<lparr> started := is \<rparr>) = state_of w"
  "state_of (w\<lparr> unhandled := es \<rparr>) = state_of w"
  by (simp_all add: state_of_def fun_eq_iff)

lemma pending_updates [simp]:
  "pending (w\<lparr> reactions := rs \<rparr>) = pending w"
  "pending (w\<lparr> microtasks := js \<rparr>) = pending w"
  "pending (w\<lparr> resourceChain := c \<rparr>) = pending w"
  "pending (w\<lparr> resourceChainLabel := l \<rparr>) = pending w"
  "pending (w\<lparr> tokens := n \<rparr>) = pending w"
  "pending (w\<lparr> released := ts \<rparr>) = pending w"
  "pending (w\<lparr> started := is \<rparr>) = pending w"
  "pending (w\<lparr> unhandled := es \<rparr>) = pending w"
  by (simp_all add: pending_def fun_eq_iff)

lemma unhandled_settle:
  "unhandled (settle p s w) =
     (if pending w p \<and> (\<exists>e. s = Rejected e) \<and> (\<forall>r \<in> set (reactions w). rx_source r \<noteq> p)
      then unhandled w @ [case s of Rejected e \<Rightarrow> e] else unhandled w)"
  by (cases s) (auto simp: settle_def Let_def pending_def filter_empty_conv)

text \<open>The shapes a microtask can take.\<close>

lemma run_job_cases:
  obtains
    (pass) "run_job j w = settle (rx_target (fst j)) (snd j) w"
  | (link) label callback ser where
      "run_job j w =
         (if ser then w\<lparr> resourceChainLabel := Some label \<rparr> else w)
           \<lparr> started := started w @
               [\<lparr> inv_label = label, inv_callback = callback, inv_op = rx_target (fst j) \<rparr>] \<rparr>"
  | (release) tok where
      "uses tok (fst j)"
      "run_job j w = settle (rx_target (fst j)) Fulfilled (w\<lparr> released := released w @ [tok] \<rparr>)"
proof (cases "case snd j of Fulfilled \<Rightarrow> on_fulfilled (fst j) | Rejected e \<Rightarrow> on_rejected (fst j)")
  case None
  then have "run_job j w = settle (rx_target (fst j)) (snd j) w"
    by (simp add: run_job_def Let_def)
  then show ?thesis by (rule pass)
next
  case (Some h)
  show ?thesis
  proof (cases h)
    case (ChainLink label callback ser)
    with Some have "run_job j w =
         (if ser then w\<lparr> resourceChainLabel := Some label \<rparr> else w)
           \<lparr> started := started w @
               [\<lparr> inv_label = label, inv_callback = callback, inv_op = rx_target (fst j) \<rparr>] \<rparr>"
      by (simp add: run_job_def Let_def)
    then show ?thesis by (rule link)
  next
    case (CallDone tok)
    with Some have "uses tok (fst j)"
      by (auto simp: uses_def split: settled.splits)
    moreover from Some CallDone have
      "run_job j w = settle (rx_target (fst j)) Fulfilled (w\<lparr> released := released w @ [tok] \<rparr>)"
      by (simp add: run_job_def Let_def)
    ultimately show ?thesis by (rule release)
  next
    case Rethrow
    with Some have "run_job j w = settle (rx_target (fst j)) (snd j) w"
      by (simp add: run_job_def Let_def)
    then show ?thesis by (rule pass)
  qed
qed

lemma wf_pop: "wf_world w \<Longrightarrow> microtasks w = j # js \<Longrightarrow> wf_world (w\<lparr> microtasks := js \<rparr>)"
  by (simp add: wf_world_def)

lemma wf_started:
  "wf_world w \<Longrightarrow> inv_op i < length (promises w) \<Longrightarrow> wf_world (w\<lparr> started := started w @ [i] \<rparr>)"
  by (auto simp: wf_world_def)

lemma wf_label: "wf_world w \<Longrightarrow> wf_world (w\<lparr> resourceChainLabel := l \<rparr>)"
  by (simp add: wf_world_def)

lemma wf_released:
  "wf_world w \<Longrightarrow> tok < tokens w \<Longrightarrow> wf_world (w\<lparr> released := released w @ [tok] \<rparr>)"
  by (auto simp: wf_world_def)

lemma wf_step:
  assumes "wf_world w"
  shows "wf_world (step e w)"
proof (cases e)
  case (Schedule label callback serial)
  with assms show ?thesis by (simp add: wf_runAsyncResourceOp)
next
  case Tick
  show ?thesis
  proof (cases "microtasks w")
    case Nil
    with Tick assms show ?thesis by simp
  next
    case (Cons j js)
    let ?w0 = "w\<lparr> microtasks := js \<rparr>"
    have w0: "wf_world ?w0" using assms Cons by (rule wf_pop)
    have t: "rx_target (fst j) < length (promises w)"
      using assms Cons by (simp add: wf_world_def)
    have "wf_world (run_job j ?w0)"
    proof (cases j ?w0 rule: run_job_cases)
      case pass
      with w0 show ?thesis by (simp add: wf_settle)
    next
      case (link label callback ser)
      with w0 t show ?thesis
        by (auto simp: wf_world_def)
    next
      case (release tok)
      from assms Cons release(1) have "tok < tokens w"
        by (simp add: wf_world_def)
      with w0 have "wf_world (?w0\<lparr> released := released ?w0 @ [tok] \<rparr>)"
        by (intro wf_released) simp_all
      with release show ?thesis by (simp add: wf_settle)
    qed
    with Tick Cons show ?thesis by simp
  qed
next
  case (Complete p s)
  with assms show ?thesis by (simp add: wf_settle)
qed

lemma wf_run: "wf_world w \<Longrightarrow> wf_world (run es w)"
  unfolding run_def by (induction es arbitrary: w) (simp_all add: wf_step)

lemma state_of_run_job_mono:
  "state_of w p = Some s \<Longrightarrow> state_of (run_job j w) p = Some s"
  by (cases j w rule: run_job_cases) (auto simp: settle_simps pending_def)

lemma state_of_step_mono: "state_of w p = Some s \<Longrightarrow> state_of (step e w) p = Some s"
proof (cases e)
  case (Schedule label callback serial)
  then show "state_of w p = Some s \<Longrightarrow> ?thesis" by (simp add: runAsync_simps)
next
  case Tick
  then show "state_of w p = Some s \<Longrightarrow> ?thesis"
    by (cases "microtasks w") (simp_all add: state_of_run_job_mono)
next
  case (Complete q s')
  then show "state_of w p = Some s \<Longrightarrow> ?thesis"
    by (auto simp: settle_simps pending_def)
qed

lemma state_of_run_mono: "state_of w p = Some s \<Longrightarrow> state_of (run es w) p = Some s"
  unfolding run_def by (induction es arbitrary: w) (simp_all add: state_of_step_mono)

lemma length_run_job: "length (promises (run_job j w)) = length (promises w)"
  by (cases j w rule: run_job_cases) (auto simp: settle_simps)

lemma length_step: "length (promises w) \<le> length (promises (step e w))"
proof (cases e)
  case Tick
  then show ?thesis by (cases "microtasks w") (simp_all add: length_run_job)
qed (simp_all add: runAsync_simps settle_simps)

lemma length_run: "length (promises w) \<le> length (promises (run es w))"
  unfolding run_def
proof (induction es arbitrary: w)
  case Nil
  then show ?case by simp
next
  case (Cons e es)
  have "length (promises w) \<le> length (promises (step e w))" by (rule length_step)
  also have "\<dots> \<le> length (promises (fold step es (step e w)))" by (rule Cons.IH)
  finally show ?case by simp
qed

lemma blocked_settle:
  assumes "blocked_by a w" and "state_of w a = None \<longrightarrow> t \<le> Suc a"
  shows "blocked_by a (settle t s w)"
proof (cases "pending w t")
  case False
  with assms show ?thesis by (simp add: settle_noop)
next
  case True
  show ?thesis
    unfolding blocked_by_def
  proof (intro impI)
    assume "state_of (settle t s w) a = None"
    with True have a: "state_of w a = None" and ta: "t \<noteq> a"
      by (auto simp: settle_simps split: if_splits)
    from a assms have t: "t \<le> Suc a" by simp
    from a assms(1) have
      len: "Suc a < length (promises w)"
      and ch: "a \<le> resourceChain w \<and> resourceChain w \<noteq> Suc a"
      and rx: "\<And>r. r \<in> set (reactions w) \<Longrightarrow> Suc a < rx_target r
                 \<Longrightarrow> rx_source r = a \<or> Suc a < rx_source r"
      and jb: "\<And>j. j \<in> set (microtasks w) \<Longrightarrow> rx_target (fst j) \<le> Suc a"
      and pn: "\<And>p. Suc a < p \<Longrightarrow> state_of w p = None"
      and st: "\<And>i. i \<in> set (started w) \<Longrightarrow> inv_op i \<le> Suc a"
      unfolding blocked_by_def by blast+
    have moved: "rx_target r \<le> Suc a" if "r \<in> set (reactions w)" "rx_source r = t" for r
    proof (rule ccontr)
      assume "\<not> rx_target r \<le> Suc a"
      then have "Suc a < rx_target r" by simp
      from rx [OF that(1) this] that(2) ta t show False by auto
    qed
    show "Suc a < length (promises (settle t s w))
      \<and> a \<le> resourceChain (settle t s w) \<and> resourceChain (settle t s w) \<noteq> Suc a
      \<and> (\<forall>r \<in> set (reactions (settle t s w)).
            Suc a < rx_target r \<longrightarrow> rx_source r = a \<or> Suc a < rx_source r)
      \<and> (\<forall>j \<in> set (microtasks (settle t s w)). rx_target (fst j) \<le> Suc a)
      \<and> (\<forall>p. Suc a < p \<longrightarrow> state_of (settle t s w) p = None)
      \<and> (\<forall>i \<in> set (started (settle t s w)). inv_op i \<le> Suc a)"
      using True len ch rx jb pn st moved t
      by (auto simp: settle_simps)
  qed
qed

lemma blocked_runAsyncResourceOp:
  assumes "blocked_by a w"
  shows "blocked_by a (runAsyncResourceOp label callback serial w)"
  unfolding blocked_by_def
proof (intro impI)
  let ?w' = "runAsyncResourceOp label callback serial w"
  assume "state_of ?w' a = None"
  then have a: "state_of w a = None" by (simp add: runAsync_simps)
  from a assms have
    len: "Suc a < length (promises w)"
    and ch: "a \<le> resourceChain w \<and> resourceChain w \<noteq> Suc a"
    and rx: "\<And>r. r \<in> set (reactions w) \<Longrightarrow> Suc a < rx_target r
               \<Longrightarrow> rx_source r = a \<or> Suc a < rx_source r"
    and jb: "\<And>j. j \<in> set (microtasks w) \<Longrightarrow> rx_target (fst j) \<le> Suc a"
    and pn: "\<And>p. Suc a < p \<Longrightarrow> state_of w p = None"
    and st: "\<And>i. i \<in> set (started w) \<Longrightarrow> inv_op i \<le> Suc a"
    unfolding blocked_by_def by blast+
  have chain_pending: "state_of w (resourceChain w) = None"
  proof (cases "resourceChain w = a")
    case True
    with a show ?thesis by simp
  next
    case False
    with ch have "Suc a < resourceChain w" by simp
    then show ?thesis by (rule pn)
  qed
  show "Suc a < length (promises ?w')
      \<and> a \<le> resourceChain ?w' \<and> resourceChain ?w' \<noteq> Suc a
      \<and> (\<forall>r \<in> set (reactions ?w').
            Suc a < rx_target r \<longrightarrow> rx_source r = a \<or> Suc a < rx_source r)
      \<and> (\<forall>j \<in> set (microtasks ?w'). rx_target (fst j) \<le> Suc a)
      \<and> (\<forall>p. Suc a < p \<longrightarrow> state_of ?w' p = None)
      \<and> (\<forall>i \<in> set (started ?w'). inv_op i \<le> Suc a)"
    using len ch rx jb pn st chain_pending
    by (auto simp: runAsync_simps next_promise_def)
qed

lemma blocked_step:
  assumes "blocked_by a w"
  shows "blocked_by a (step e w)"
proof (cases "state_of w a")
  case (Some s)
  then have "state_of (step e w) a = Some s" by (rule state_of_step_mono)
  then show ?thesis by (simp add: blocked_by_def)
next
  case None
  from None assms have
    jb: "\<And>j. j \<in> set (microtasks w) \<Longrightarrow> rx_target (fst j) \<le> Suc a"
    and st: "\<And>i. i \<in> set (started w) \<Longrightarrow> inv_op i \<le> Suc a"
    unfolding blocked_by_def by blast+
  show ?thesis
  proof (cases e)
    case (Schedule label callback serial)
    with assms show ?thesis by (simp add: blocked_runAsyncResourceOp)
  next
    case Tick
    show ?thesis
    proof (cases "microtasks w")
      case Nil
      with Tick assms show ?thesis by simp
    next
      case (Cons j js)
      let ?w0 = "w\<lparr> microtasks := js \<rparr>"
      have w0: "blocked_by a ?w0"
        using assms Cons by (auto simp: blocked_by_def)
      have t: "rx_target (fst j) \<le> Suc a"
        using jb [of j] Cons by simp
      have "blocked_by a (run_job j ?w0)"
      proof (cases j ?w0 rule: run_job_cases)
        case pass
        with w0 t show ?thesis by (simp add: blocked_settle)
      next
        case (link label callback ser)
        with w0 t show ?thesis
          by (auto simp: blocked_by_def)
      next
        case (release tok)
        have "blocked_by a (?w0\<lparr> released := released ?w0 @ [tok] \<rparr>)"
          using w0 by (simp add: blocked_by_def)
        then have "blocked_by a (settle (rx_target (fst j)) Fulfilled
                     (?w0\<lparr> released := released ?w0 @ [tok] \<rparr>))"
          using t by (intro blocked_settle) simp_all
        with release show ?thesis by simp
      qed
      with Tick Cons show ?thesis by simp
    qed
  next
    case (Complete p s)
    show ?thesis
    proof (cases "p \<in> inv_op ` set (started w)")
      case True
      then have "p \<le> Suc a" using st by auto
      with assms Complete True show ?thesis by (simp add: blocked_settle)
    next
      case False
      with assms Complete show ?thesis by simp
    qed
  qed
qed

lemma blocked_run: "blocked_by a w \<Longrightarrow> blocked_by a (run es w)"
  unfolding run_def by (induction es arbitrary: w) (simp_all add: blocked_step)

lemma blocked_after_serial:
  assumes "wf_world w" and "is_serial w serial"
  shows "blocked_by (resourceChain (runAsyncResourceOp label callback serial w))
           (runAsyncResourceOp label callback serial w)"
proof -
  from assms(1) have
    c: "resourceChain w < length (promises w)"
    and r: "\<And>r. r \<in> set (reactions w) \<Longrightarrow> rx_target r < length (promises w)"
    and j: "\<And>j. j \<in> set (microtasks w) \<Longrightarrow> rx_target (fst j) < length (promises w)"
    and i: "\<And>i. i \<in> set (started w) \<Longrightarrow> inv_op i < length (promises w)"
    unfolding wf_world_def by blast+
  show ?thesis
    using assms(2) c r j i
    unfolding blocked_by_def
    by (auto simp: runAsync_simps next_promise_def less_Suc_eq_le split: option.splits
             dest!: r j i)
qed

lemma run_job_selected:
  obtains
    (pass) "selected j = None \<or> selected j = Some Rethrow"
      "run_job j w = settle (rx_target (fst j)) (snd j) w"
  | (link) label callback ser where
      "selected j = Some (ChainLink label callback ser)"
      "run_job j w =
         (if ser then w\<lparr> resourceChainLabel := Some label \<rparr> else w)
           \<lparr> started := started w @
               [\<lparr> inv_label = label, inv_callback = callback, inv_op = rx_target (fst j) \<rparr>] \<rparr>"
  | (release) tok where
      "selected j = Some (CallDone tok)"
      "run_job j w = settle (rx_target (fst j)) Fulfilled (w\<lparr> released := released w @ [tok] \<rparr>)"
proof (cases "selected j")
  case None
  then have "run_job j w = settle (rx_target (fst j)) (snd j) w"
    by (simp add: run_job_def Let_def selected_def)
  with None show ?thesis by (intro pass) simp_all
next
  case (Some h)
  show ?thesis
  proof (cases h)
    case (ChainLink label callback ser)
    with Some have "run_job j w =
         (if ser then w\<lparr> resourceChainLabel := Some label \<rparr> else w)
           \<lparr> started := started w @
               [\<lparr> inv_label = label, inv_callback = callback, inv_op = rx_target (fst j) \<rparr>] \<rparr>"
      by (simp add: run_job_def Let_def selected_def)
    with Some ChainLink show ?thesis by (intro link) simp_all
  next
    case (CallDone tok)
    with Some have
      "run_job j w = settle (rx_target (fst j)) Fulfilled (w\<lparr> released := released w @ [tok] \<rparr>)"
      by (simp add: run_job_def Let_def selected_def)
    with Some CallDone show ?thesis by (intro release) simp_all
  next
    case Rethrow
    with Some have "run_job j w = settle (rx_target (fst j)) (snd j) w"
      by (simp add: run_job_def Let_def selected_def)
    with Some Rethrow show ?thesis by (intro pass) simp_all
  qed
qed

lemma selected_final: "fst j = final_rx p tok \<Longrightarrow> selected j = Some (CallDone tok)"
  by (cases "snd j") (simp_all add: selected_def)

lemma selected_catch:
  "fst j = catch_rx p \<Longrightarrow> selected j = None \<or> selected j = Some Rethrow"
  by (cases "snd j") (simp_all add: selected_def)

lemma selected_uses: "selected j = Some (CallDone tok) \<Longrightarrow> uses tok (fst j)"
  by (cases "snd j") (simp_all add: selected_def uses_def)

lemma uses_final [simp]: "uses tok' (final_rx p tok) \<longleftrightarrow> tok' = tok"
  by (auto simp: uses_def)

lemma uses_others [simp]:
  "\<not> uses tok (catch_rx p)" "\<not> uses tok (chain_link w label callback serial)"
  by (simp_all add: uses_def)

lemma rx_distinct [simp]:
  "final_rx p tok \<noteq> catch_rx q" "catch_rx q \<noteq> final_rx p tok"
  "final_rx p tok = final_rx q tok' \<longleftrightarrow> p = q \<and> tok = tok'"
  "catch_rx p = catch_rx q \<longleftrightarrow> p = q"
  by (auto simp: final_rx_def catch_rx_def)

lemma filter_split_length:
  "length (filter P (filter (\<lambda>r. f r \<noteq> t) xs)) + length (filter P (filter (\<lambda>r. f r = t) xs))
     = length (filter P xs)"
  by (induction xs) auto

lemma filter_fst_map: "filter (\<lambda>j. P (fst j)) (map (\<lambda>r. (r, s)) xs) = map (\<lambda>r. (r, s)) (filter P xs)"
  by (induction xs) auto

subsection \<open>The token of an operation\<close>

lemma tok_invI:
  assumes "Suc p < length (promises w)" and "tok < tokens w"
    and "\<And>r. r \<in> set (reactions w) \<Longrightarrow> uses tok r \<or> rx_target r = Suc p \<Longrightarrow> r = final_rx p tok"
    and "\<And>j. j \<in> set (microtasks w) \<Longrightarrow> uses tok (fst j) \<or> rx_target (fst j) = Suc p
           \<Longrightarrow> fst j = final_rx p tok"
    and "count_list (released w) tok
        + length (filter (\<lambda>r. r = final_rx p tok) (reactions w))
        + length (filter (\<lambda>j. fst j = final_rx p tok) (microtasks w)) = 1"
    and "state_of w (Suc p) = (if tok \<in> set (released w) then Some Fulfilled else None)"
    and "state_of w p = None \<Longrightarrow> final_rx p tok \<in> set (reactions w)"
    and "\<And>i. i \<in> set (started w) \<Longrightarrow> inv_op i \<noteq> Suc p"
  shows "tok_inv p tok w"
  unfolding tok_inv_def using assms by blast

lemma tok_invD:
  assumes "tok_inv p tok w"
  shows "Suc p < length (promises w)" and "tok < tokens w"
    and "\<And>r. r \<in> set (reactions w) \<Longrightarrow> uses tok r \<or> rx_target r = Suc p \<Longrightarrow> r = final_rx p tok"
    and "\<And>j. j \<in> set (microtasks w) \<Longrightarrow> uses tok (fst j) \<or> rx_target (fst j) = Suc p
           \<Longrightarrow> fst j = final_rx p tok"
    and "count_list (released w) tok
        + length (filter (\<lambda>r. r = final_rx p tok) (reactions w))
        + length (filter (\<lambda>j. fst j = final_rx p tok) (microtasks w)) = 1"
    and "state_of w (Suc p) = (if tok \<in> set (released w) then Some Fulfilled else None)"
    and "state_of w p = None \<Longrightarrow> final_rx p tok \<in> set (reactions w)"
    and "\<And>i. i \<in> set (started w) \<Longrightarrow> inv_op i \<noteq> Suc p"
  using assms unfolding tok_inv_def by blast+

lemma tok_inv_settle:
  assumes inv: "tok_inv p tok w" and t: "t \<noteq> Suc p"
  shows "tok_inv p tok (settle t s w)"
proof (cases "pending w t")
  case False
  with assms show ?thesis by (simp add: settle_noop)
next
  case True
  note d = tok_invD [OF inv]
  let ?w' = "settle t s w"
  have rs: "reactions ?w' = filter (\<lambda>r. rx_source r \<noteq> t) (reactions w)"
    and ms: "microtasks ?w' = microtasks w
              @ map (\<lambda>r. (r, s)) (filter (\<lambda>r. rx_source r = t) (reactions w))"
    using True by (simp_all add: settle_simps)
  show ?thesis
  proof (rule tok_invI)
    show "Suc p < length (promises ?w')" using d(1) by (simp add: settle_simps)
    show "tok < tokens ?w'" using d(2) by (simp add: settle_simps)
    show "r = final_rx p tok"
      if "r \<in> set (reactions ?w')" "uses tok r \<or> rx_target r = Suc p" for r
      using that d(3) [of r] by (simp add: rs)
    show "fst j = final_rx p tok"
      if "j \<in> set (microtasks ?w')" "uses tok (fst j) \<or> rx_target (fst j) = Suc p" for j
      using that d(3) d(4) [of j] by (auto simp: ms)
    have "length (filter (\<lambda>j. fst j = final_rx p tok) (microtasks ?w'))
            = length (filter (\<lambda>j. fst j = final_rx p tok) (microtasks w))
              + length (filter (\<lambda>r. r = final_rx p tok)
                          (filter (\<lambda>r. rx_source r = t) (reactions w)))"
      by (simp add: ms filter_fst_map)
    then show "count_list (released ?w') tok
        + length (filter (\<lambda>r. r = final_rx p tok) (reactions ?w'))
        + length (filter (\<lambda>j. fst j = final_rx p tok) (microtasks ?w')) = 1"
      using d(5) filter_split_length [of "\<lambda>r. r = final_rx p tok" rx_source t "reactions w"]
      by (simp add: rs settle_simps(6))
    show "state_of ?w' (Suc p) = (if tok \<in> set (released ?w') then Some Fulfilled else None)"
      using d(6) t by (simp add: settle_simps)
    show "final_rx p tok \<in> set (reactions ?w')" if "state_of ?w' p = None"
    proof -
      from that True have "p \<noteq> t" and "state_of w p = None"
        by (auto simp: settle_simps split: if_splits)
      with d(7) show ?thesis by (simp add: rs)
    qed
    show "inv_op i \<noteq> Suc p" if "i \<in> set (started ?w')" for i
      using that d(8) [of i] by (simp add: settle_simps)
  qed
qed

lemma tok_inv_pop:
  assumes inv: "tok_inv p tok w" and "microtasks w = j # js" and "fst j \<noteq> final_rx p tok"
  shows "tok_inv p tok (w\<lparr> microtasks := js \<rparr>)"
  using assms unfolding tok_inv_def by simp

lemma tok_inv_started:
  assumes inv: "tok_inv p tok w" and "inv_op i \<noteq> Suc p"
  shows "tok_inv p tok ((if ser then w\<lparr> resourceChainLabel := l \<rparr> else w)
           \<lparr> started := started w @ [i] \<rparr>)"
  using assms unfolding tok_inv_def by (cases ser) simp_all

lemma tok_inv_released_other:
  assumes inv: "tok_inv p tok w" and "tok' \<noteq> tok"
  shows "tok_inv p tok (w\<lparr> released := released w @ [tok'] \<rparr>)"
  using assms unfolding tok_inv_def by simp

lemma tok_inv_final_job:
  assumes wfw: "wf_world w" and inv: "tok_inv p tok w"
    and ms: "microtasks w = j # js" and j: "fst j = final_rx p tok"
  shows "tok_inv p tok
           (settle (Suc p) Fulfilled (w\<lparr> microtasks := js, released := released w @ [tok] \<rparr>))"
proof -
  let ?w0 = "w\<lparr> microtasks := js, released := released w @ [tok] \<rparr>"
  let ?w' = "settle (Suc p) Fulfilled ?w0"
  note d = tok_invD [OF inv]
  from d(5) ms j have cnt0: "count_list (released w) tok = 0"
    and nr: "filter (\<lambda>r. r = final_rx p tok) (reactions w) = []"
    and nj: "filter (\<lambda>j. fst j = final_rx p tok) js = []"
    by simp_all
  from cnt0 have notin: "tok \<notin> set (released w)"
    by (simp add: count_list_0_iff)
  with d(1,6) have pend: "pending ?w0 (Suc p)"
    by (simp add: pending_def)
  from wfw ms j have psettled: "state_of w p \<noteq> None"
    by (auto simp: wf_world_def)
  have rs: "reactions ?w' = filter (\<lambda>r. rx_source r \<noteq> Suc p) (reactions w)"
    and ms': "microtasks ?w' = js
              @ map (\<lambda>r. (r, Fulfilled)) (filter (\<lambda>r. rx_source r = Suc p) (reactions w))"
    using pend by (simp_all add: settle_simps)
  have nofinal: "r \<noteq> final_rx p tok" if "r \<in> set (reactions w)" for r
    using that nr by (auto simp: filter_empty_conv)
  show ?thesis
  proof (rule tok_invI)
    show "Suc p < length (promises ?w')" using d(1) by (simp add: settle_simps)
    show "tok < tokens ?w'" using d(2) by (simp add: settle_simps)
    show "r = final_rx p tok"
      if "r \<in> set (reactions ?w')" "uses tok r \<or> rx_target r = Suc p" for r
      using that d(3) [of r] by (simp add: rs)
    show "fst j' = final_rx p tok"
      if "j' \<in> set (microtasks ?w')" "uses tok (fst j') \<or> rx_target (fst j') = Suc p" for j'
      using that d(3) d(4) [of j'] ms by (auto simp: ms')
    have "filter (\<lambda>r. r = final_rx p tok) (reactions ?w') = []"
      using nofinal by (auto simp: rs filter_empty_conv)
    moreover have "filter (\<lambda>j. fst j = final_rx p tok) (microtasks ?w') = []"
      using nofinal nj by (auto simp: ms' filter_empty_conv)
    moreover have "count_list (released ?w') tok = 1"
      using cnt0 by (simp add: settle_simps)
    ultimately show "count_list (released ?w') tok
        + length (filter (\<lambda>r. r = final_rx p tok) (reactions ?w'))
        + length (filter (\<lambda>j. fst j = final_rx p tok) (microtasks ?w')) = 1"
      by simp
    show "state_of ?w' (Suc p) = (if tok \<in> set (released ?w') then Some Fulfilled else None)"
      using pend by (simp add: settle_simps)
    show "final_rx p tok \<in> set (reactions ?w')" if "state_of ?w' p = None"
      using that psettled by (simp add: settle_simps split: if_splits)
    show "inv_op i \<noteq> Suc p" if "i \<in> set (started ?w')" for i
      using that d(8) [of i] by (simp add: settle_simps)
  qed
qed

lemma tok_inv_runAsyncResourceOp:
  assumes wfw: "wf_world w" and inv: "tok_inv p tok w"
  shows "tok_inv p tok (runAsyncResourceOp label callback serial w)"
proof -
  let ?w' = "runAsyncResourceOp label callback serial w"
  note d = tok_invD [OF inv]
  have ne: "final_rx (next_promise w) (tokens w) \<noteq> final_rx p tok"
    using d(2) by simp
  have link: "chain_link w label callback serial \<noteq> final_rx p tok"
    by (simp add: chain_link_def final_rx_def)
  have new: "r \<noteq> final_rx p tok \<and> \<not> uses tok r \<and> rx_target r \<noteq> Suc p"
    if "r \<in> {chain_link w label callback serial, final_rx (next_promise w) (tokens w),
               catch_rx (next_promise w)}" for r
    using that d(1,2) link by (auto simp: next_promise_def)
  show ?thesis
  proof (rule tok_invI)
    show "Suc p < length (promises ?w')" using d(1) by (simp add: runAsync_simps)
    show "tok < tokens ?w'" using d(2) by (simp add: runAsync_simps)
    show "r = final_rx p tok"
      if "r \<in> set (reactions ?w')" "uses tok r \<or> rx_target r = Suc p" for r
      using that d(3) [of r] new [of r]
      by (auto simp: runAsync_simps split: option.splits)
    show "fst j = final_rx p tok"
      if "j \<in> set (microtasks ?w')" "uses tok (fst j) \<or> rx_target (fst j) = Suc p" for j
      using that d(4) [of j] new [of "fst j"]
      by (auto simp: runAsync_simps split: option.splits)
    show "count_list (released ?w') tok
        + length (filter (\<lambda>r. r = final_rx p tok) (reactions ?w'))
        + length (filter (\<lambda>j. fst j = final_rx p tok) (microtasks ?w')) = 1"
      using d(5) ne link by (auto simp: runAsync_simps split: option.splits)
    show "state_of ?w' (Suc p) = (if tok \<in> set (released ?w') then Some Fulfilled else None)"
      using d(6) by (simp add: runAsync_simps)
    show "final_rx p tok \<in> set (reactions ?w')" if "state_of ?w' p = None"
      using that d(7) by (simp add: runAsync_simps)
    show "inv_op i \<noteq> Suc p" if "i \<in> set (started ?w')" for i
      using that d(8) [of i] by (simp add: runAsync_simps)
  qed
qed

lemma tok_inv_new:
  assumes "wf_world w"
  shows "tok_inv (next_promise w) (tokens w) (runAsyncResourceOp label callback serial w)"
proof -
  let ?w' = "runAsyncResourceOp label callback serial w"
  let ?p = "next_promise w"
  let ?tok = "tokens w"
  from assms have
    r: "\<And>r. r \<in> set (reactions w) \<Longrightarrow> rx_target r < length (promises w) \<and> \<not> uses ?tok r"
    and j: "\<And>j. j \<in> set (microtasks w) \<Longrightarrow>
              rx_target (fst j) < length (promises w) \<and> \<not> uses ?tok (fst j)"
    and i: "\<And>i. i \<in> set (started w) \<Longrightarrow> inv_op i < length (promises w)"
    and rel: "?tok \<notin> set (released w)"
    unfolding wf_world_def by (blast, blast, blast, blast)
  have old_r: "r \<noteq> final_rx ?p ?tok" if "r \<in> set (reactions w)" for r
    using r [OF that] by auto
  have old_j: "fst j \<noteq> final_rx ?p ?tok" if "j \<in> set (microtasks w)" for j
    using j [OF that] by auto
  have nr: "filter (\<lambda>r. r = final_rx ?p ?tok) (reactions w) = []"
    using old_r by (auto simp: filter_empty_conv)
  have nj: "filter (\<lambda>j. fst j = final_rx ?p ?tok) (microtasks w) = []"
    using old_j by (auto simp: filter_empty_conv)
  have link: "chain_link w label callback serial \<noteq> final_rx ?p ?tok"
    by (simp add: chain_link_def final_rx_def)
  show ?thesis
  proof (rule tok_invI)
    show "Suc ?p < length (promises ?w')" by (simp add: runAsync_simps next_promise_def)
    show "?tok < tokens ?w'" by (simp add: runAsync_simps)
    show "r = final_rx ?p ?tok"
      if "r \<in> set (reactions ?w')" "uses ?tok r \<or> rx_target r = Suc ?p" for r
      using that r [of r]
      by (auto simp: runAsync_simps next_promise_def split: option.splits)
    show "fst j = final_rx ?p ?tok"
      if "j \<in> set (microtasks ?w')" "uses ?tok (fst j) \<or> rx_target (fst j) = Suc ?p" for j
      using that j [of j]
      by (auto simp: runAsync_simps next_promise_def split: option.splits)
    show "count_list (released ?w') ?tok
        + length (filter (\<lambda>r. r = final_rx ?p ?tok) (reactions ?w'))
        + length (filter (\<lambda>j. fst j = final_rx ?p ?tok) (microtasks ?w')) = 1"
      using rel nr nj link
      by (auto simp: runAsync_simps count_list_0_iff split: option.splits)
    show "state_of ?w' (Suc ?p) = (if ?tok \<in> set (released ?w') then Some Fulfilled else None)"
      using rel by (simp add: runAsync_simps next_promise_def)
    show "final_rx ?p ?tok \<in> set (reactions ?w')"
      by (simp add: runAsync_simps)
    show "inv_op i \<noteq> Suc ?p" if "i \<in> set (started ?w')" for i
      using that i [of i] by (simp add: runAsync_simps next_promise_def)
  qed
qed

lemma tok_inv_step:
  assumes "wf_world w" and "tok_inv p tok w"
  shows "tok_inv p tok (step e w)"
proof (cases e)
  case (Schedule label callback serial)
  with assms show ?thesis by (simp add: tok_inv_runAsyncResourceOp)
next
  case Tick
  show ?thesis
  proof (cases "microtasks w")
    case Nil
    with Tick assms show ?thesis by simp
  next
    case (Cons j js)
    let ?w0 = "w\<lparr> microtasks := js \<rparr>"
    have "tok_inv p tok (run_job j ?w0)"
    proof (cases "fst j = final_rx p tok")
      case True
      then have "selected j = Some (CallDone tok)" by (rule selected_final)
      have "run_job j ?w0 =
          settle (Suc p) Fulfilled (w\<lparr> microtasks := js, released := released w @ [tok] \<rparr>)"
        using True by (cases "snd j") (simp_all add: run_job_def Let_def)
      with tok_inv_final_job [OF assms Cons True] show ?thesis by simp
    next
      case False
      have w0: "tok_inv p tok ?w0" using assms(2) Cons False by (rule tok_inv_pop)
      from assms(2) Cons False have t: "rx_target (fst j) \<noteq> Suc p" and u: "\<not> uses tok (fst j)"
        by (auto simp: tok_inv_def)
      show ?thesis
      proof (cases j ?w0 rule: run_job_selected)
        case pass
        with w0 t show ?thesis by (simp add: tok_inv_settle)
      next
        case (link label callback ser)
        from tok_inv_started [OF w0, of "\<lparr> inv_label = label, inv_callback = callback,
               inv_op = rx_target (fst j) \<rparr>" ser "Some label"] t link(2)
        show ?thesis by simp
      next
        case (release tok')
        from release(1) have "uses tok' (fst j)" by (rule selected_uses)
        with u have "tok' \<noteq> tok" by auto
        with w0 have "tok_inv p tok (?w0\<lparr> released := released ?w0 @ [tok'] \<rparr>)"
          by (rule tok_inv_released_other)
        with t release(2) show ?thesis by (simp add: tok_inv_settle)
      qed
    qed
    with Tick Cons show ?thesis by simp
  qed
next
  case (Complete q s)
  show ?thesis
  proof (cases "q \<in> inv_op ` set (started w)")
    case True
    with assms(2) have "q \<noteq> Suc p" by (auto simp: tok_inv_def)
    with assms(2) Complete True show ?thesis by (simp add: tok_inv_settle)
  next
    case False
    with assms Complete show ?thesis by simp
  qed
qed

lemma tok_inv_run: "wf_world w \<Longrightarrow> tok_inv p tok w \<Longrightarrow> tok_inv p tok (run es w)"
  unfolding run_def by (induction es arbitrary: w) (simp_all add: tok_inv_step wf_step)

subsection \<open>The propagated rejection of an operation\<close>

lemma catch_invI:
  assumes "Suc (Suc p) < length (promises w)" and "resourceChain w \<noteq> Suc (Suc p)"
    and "\<And>r. r \<in> set (reactions w) \<Longrightarrow> rx_source r \<noteq> Suc (Suc p)"
    and "\<And>r. r \<in> set (reactions w) \<Longrightarrow> rx_target r = Suc (Suc p) \<Longrightarrow> r = catch_rx p"
    and "\<And>j. j \<in> set (microtasks w) \<Longrightarrow> rx_target (fst j) = Suc (Suc p) \<Longrightarrow> fst j = catch_rx p"
    and "\<And>i. i \<in> set (started w) \<Longrightarrow> inv_op i \<noteq> Suc (Suc p)"
    and "state_of w p = None \<Longrightarrow> catch_rx p \<in> set (reactions w) \<and> state_of w (Suc (Suc p)) = None"
    and "\<And>s. state_of w p = Some s \<Longrightarrow>
          ((catch_rx p, s) \<in> set (microtasks w) \<and> state_of w (Suc (Suc p)) = None)
          \<or> (state_of w (Suc (Suc p)) = Some s
              \<and> (\<forall>e. s = Rejected e \<longrightarrow> e \<in> set (unhandled w)))"
  shows "catch_inv p w"
  unfolding catch_inv_def using assms by blast

lemma catch_invD:
  assumes "catch_inv p w"
  shows "Suc (Suc p) < length (promises w)" and "resourceChain w \<noteq> Suc (Suc p)"
    and "\<And>r. r \<in> set (reactions w) \<Longrightarrow> rx_source r \<noteq> Suc (Suc p)"
    and "\<And>r. r \<in> set (reactions w) \<Longrightarrow> rx_target r = Suc (Suc p) \<Longrightarrow> r = catch_rx p"
    and "\<And>j. j \<in> set (microtasks w) \<Longrightarrow> rx_target (fst j) = Suc (Suc p) \<Longrightarrow> fst j = catch_rx p"
    and "\<And>i. i \<in> set (started w) \<Longrightarrow> inv_op i \<noteq> Suc (Suc p)"
    and "state_of w p = None \<Longrightarrow> catch_rx p \<in> set (reactions w) \<and> state_of w (Suc (Suc p)) = None"
    and "\<And>s. state_of w p = Some s \<Longrightarrow>
          ((catch_rx p, s) \<in> set (microtasks w) \<and> state_of w (Suc (Suc p)) = None)
          \<or> (state_of w (Suc (Suc p)) = Some s
              \<and> (\<forall>e. s = Rejected e \<longrightarrow> e \<in> set (unhandled w)))"
  using assms unfolding catch_inv_def by blast+

lemma unhandled_settle_mono: "set (unhandled w) \<subseteq> set (unhandled (settle t s w))"
  by (cases s) (auto simp: settle_def Let_def)

lemma catch_inv_settle:
  assumes inv: "catch_inv p w" and t: "t \<noteq> Suc (Suc p)"
  shows "catch_inv p (settle t s w)"
proof (cases "pending w t")
  case False
  with assms show ?thesis by (simp add: settle_noop)
next
  case True
  note d = catch_invD [OF inv]
  let ?w' = "settle t s w"
  have rs: "reactions ?w' = filter (\<lambda>r. rx_source r \<noteq> t) (reactions w)"
    and ms: "microtasks ?w' = microtasks w
              @ map (\<lambda>r. (r, s)) (filter (\<lambda>r. rx_source r = t) (reactions w))"
    and st: "\<And>q. state_of ?w' q = (if q = t then Some s else state_of w q)"
    using True by (simp_all add: settle_simps)
  show ?thesis
  proof (rule catch_invI)
    show "Suc (Suc p) < length (promises ?w')" using d(1) by (simp add: settle_simps)
    show "resourceChain ?w' \<noteq> Suc (Suc p)" using d(2) by (simp add: settle_simps)
    show "rx_source r \<noteq> Suc (Suc p)" if "r \<in> set (reactions ?w')" for r
      using that d(3) [of r] by (simp add: rs)
    show "r = catch_rx p" if "r \<in> set (reactions ?w')" "rx_target r = Suc (Suc p)" for r
      using that d(4) [of r] by (simp add: rs)
    show "fst j = catch_rx p"
      if "j \<in> set (microtasks ?w')" "rx_target (fst j) = Suc (Suc p)" for j
      using that d(4) d(5) [of j] by (auto simp: ms)
    show "inv_op i \<noteq> Suc (Suc p)" if "i \<in> set (started ?w')" for i
      using that d(6) [of i] by (simp add: settle_simps)
    show "catch_rx p \<in> set (reactions ?w') \<and> state_of ?w' (Suc (Suc p)) = None"
      if "state_of ?w' p = None"
    proof -
      from that have "p \<noteq> t" and "state_of w p = None"
        by (auto simp: st split: if_splits)
      with d(7) t show ?thesis by (simp add: rs st)
    qed
    show "((catch_rx p, s') \<in> set (microtasks ?w') \<and> state_of ?w' (Suc (Suc p)) = None)
          \<or> (state_of ?w' (Suc (Suc p)) = Some s'
              \<and> (\<forall>e. s' = Rejected e \<longrightarrow> e \<in> set (unhandled ?w')))"
      if "state_of ?w' p = Some s'" for s'
    proof (cases "p = t")
      case True
      with that have "s' = s" by (simp add: st)
      from True \<open>pending w t\<close> have "state_of w p = None" by (simp add: pending_def)
      with d(7) have "catch_rx p \<in> set (reactions w)" and "state_of w (Suc (Suc p)) = None"
        by simp_all
      with True t \<open>s' = s\<close> show ?thesis by (simp add: ms st)
    next
      case False
      with that have "state_of w p = Some s'" by (simp add: st)
      from d(8) [OF this] unhandled_settle_mono [of w t s] t show ?thesis
        by (auto simp: ms st)
    qed
  qed
qed

lemma catch_inv_pop:
  assumes inv: "catch_inv p w" and ms: "microtasks w = j # js" and j: "fst j \<noteq> catch_rx p"
  shows "catch_inv p (w\<lparr> microtasks := js \<rparr>)"
proof -
  let ?w' = "w\<lparr> microtasks := js \<rparr>"
  note d = catch_invD [OF inv]
  have mem: "(catch_rx p, s) \<in> set js" if "(catch_rx p, s) \<in> set (microtasks w)" for s
  proof -
    from that ms have "(catch_rx p, s) = j \<or> (catch_rx p, s) \<in> set js" by simp
    moreover have "(catch_rx p, s) \<noteq> j" using j by (cases j) auto
    ultimately show ?thesis by simp
  qed
  show ?thesis
  proof (rule catch_invI)
    show "Suc (Suc p) < length (promises ?w')" using d(1) by simp
    show "resourceChain ?w' \<noteq> Suc (Suc p)" using d(2) by simp
    show "rx_source r \<noteq> Suc (Suc p)" if "r \<in> set (reactions ?w')" for r
      using that d(3) [of r] by simp
    show "r = catch_rx p" if "r \<in> set (reactions ?w')" "rx_target r = Suc (Suc p)" for r
      using that d(4) [of r] by simp
    show "fst j' = catch_rx p"
      if "j' \<in> set (microtasks ?w')" "rx_target (fst j') = Suc (Suc p)" for j'
      using that d(5) [of j'] ms by simp
    show "inv_op i \<noteq> Suc (Suc p)" if "i \<in> set (started ?w')" for i
      using that d(6) [of i] by simp
    show "catch_rx p \<in> set (reactions ?w') \<and> state_of ?w' (Suc (Suc p)) = None"
      if "state_of ?w' p = None"
      using that d(7) by simp
    show "((catch_rx p, s) \<in> set (microtasks ?w') \<and> state_of ?w' (Suc (Suc p)) = None)
          \<or> (state_of ?w' (Suc (Suc p)) = Some s
              \<and> (\<forall>e. s = Rejected e \<longrightarrow> e \<in> set (unhandled ?w')))"
      if "state_of ?w' p = Some s" for s
    proof -
      from that have "state_of w p = Some s" by simp
      from d(8) [OF this] mem [of s] show ?thesis by auto
    qed
  qed
qed

lemma catch_inv_started:
  assumes "catch_inv p w" and "inv_op i \<noteq> Suc (Suc p)"
  shows "catch_inv p ((if ser then w\<lparr> resourceChainLabel := l \<rparr> else w)
           \<lparr> started := started w @ [i] \<rparr>)"
  using assms unfolding catch_inv_def by (cases ser) simp_all

lemma catch_inv_released:
  assumes "catch_inv p w"
  shows "catch_inv p (w\<lparr> released := ts \<rparr>)"
  using assms unfolding catch_inv_def by simp

lemma catch_inv_catch_job:
  assumes wfw: "wf_world w" and inv: "catch_inv p w"
    and ms: "microtasks w = j # js" and j: "fst j = catch_rx p"
  shows "catch_inv p (settle (Suc (Suc p)) (snd j) (w\<lparr> microtasks := js \<rparr>))"
proof -
  let ?w0 = "w\<lparr> microtasks := js \<rparr>"
  let ?w' = "settle (Suc (Suc p)) (snd j) ?w0"
  note d = catch_invD [OF inv]
  from wfw ms j have ps: "state_of w p = Some (snd j)"
    by (auto simp: wf_world_def)
  have nosrc: "filter (\<lambda>r. rx_source r = Suc (Suc p)) (reactions w) = []"
    using d(3) by (auto simp: filter_empty_conv)
  have allsrc: "filter (\<lambda>r. rx_source r \<noteq> Suc (Suc p)) (reactions w) = reactions w"
    using d(3) by (auto simp: filter_id_conv)
  have rs: "reactions ?w' = reactions w"
    using allsrc by (simp add: settle_simps)
  have ms': "microtasks ?w' = js"
    using nosrc by (simp add: settle_simps)
  have fin: "state_of ?w' (Suc (Suc p)) = Some (snd j)
             \<and> (\<forall>e. snd j = Rejected e \<longrightarrow> e \<in> set (unhandled ?w'))"
  proof (cases "pending ?w0 (Suc (Suc p))")
    case True
    then show ?thesis
      using d(3) by (auto simp: settle_simps unhandled_settle)
  next
    case False
    with d(1) have "state_of w (Suc (Suc p)) \<noteq> None"
      by (simp add: pending_def)
    with d(8) [OF ps] have "state_of w (Suc (Suc p)) = Some (snd j)"
      and "\<forall>e. snd j = Rejected e \<longrightarrow> e \<in> set (unhandled w)"
      by auto
    with False show ?thesis by (simp add: settle_noop)
  qed
  show ?thesis
  proof (rule catch_invI)
    show "Suc (Suc p) < length (promises ?w')" using d(1) by (simp add: settle_simps)
    show "resourceChain ?w' \<noteq> Suc (Suc p)" using d(2) by (simp add: settle_simps)
    show "rx_source r \<noteq> Suc (Suc p)" if "r \<in> set (reactions ?w')" for r
      using that d(3) [of r] by (simp add: rs)
    show "r = catch_rx p" if "r \<in> set (reactions ?w')" "rx_target r = Suc (Suc p)" for r
      using that d(4) [of r] by (simp add: rs)
    show "fst j' = catch_rx p"
      if "j' \<in> set (microtasks ?w')" "rx_target (fst j') = Suc (Suc p)" for j'
      using that d(5) [of j'] ms by (simp add: ms')
    show "inv_op i \<noteq> Suc (Suc p)" if "i \<in> set (started ?w')" for i
      using that d(6) [of i] by (simp add: settle_simps)
    show "catch_rx p \<in> set (reactions ?w') \<and> state_of ?w' (Suc (Suc p)) = None"
      if "state_of ?w' p = None"
      using that ps by (simp add: settle_simps split: if_splits)
    show "((catch_rx p, s') \<in> set (microtasks ?w') \<and> state_of ?w' (Suc (Suc p)) = None)
          \<or> (state_of ?w' (Suc (Suc p)) = Some s'
              \<and> (\<forall>e. s' = Rejected e \<longrightarrow> e \<in> set (unhandled ?w')))"
      if "state_of ?w' p = Some s'" for s'
    proof -
      from that ps have "s' = snd j"
        by (simp add: settle_simps split: if_splits)
      with fin show ?thesis by simp
    qed
  qed
qed

lemma catch_inv_runAsyncResourceOp:
  assumes inv: "catch_inv p w"
  shows "catch_inv p (runAsyncResourceOp label callback serial w)"
proof -
  let ?w' = "runAsyncResourceOp label callback serial w"
  note d = catch_invD [OF inv]
  have new: "rx_source r \<noteq> Suc (Suc p) \<and> rx_target r \<noteq> Suc (Suc p)"
    if "r \<in> {chain_link w label callback serial, final_rx (next_promise w) (tokens w),
               catch_rx (next_promise w)}" for r
    using that d(1,2) by (auto simp: next_promise_def)
  show ?thesis
  proof (rule catch_invI)
    show "Suc (Suc p) < length (promises ?w')" using d(1) by (simp add: runAsync_simps)
    show "resourceChain ?w' \<noteq> Suc (Suc p)"
      using d(1,2) by (simp add: runAsync_simps next_promise_def)
    show "rx_source r \<noteq> Suc (Suc p)" if "r \<in> set (reactions ?w')" for r
      using that d(3) [of r] new [of r]
      by (auto simp: runAsync_simps split: option.splits)
    show "r = catch_rx p" if "r \<in> set (reactions ?w')" "rx_target r = Suc (Suc p)" for r
      using that d(4) [of r] new [of r]
      by (auto simp: runAsync_simps split: option.splits)
    show "fst j = catch_rx p"
      if "j \<in> set (microtasks ?w')" "rx_target (fst j) = Suc (Suc p)" for j
      using that d(5) [of j] new [of "fst j"]
      by (auto simp: runAsync_simps split: option.splits)
    show "inv_op i \<noteq> Suc (Suc p)" if "i \<in> set (started ?w')" for i
      using that d(6) [of i] by (simp add: runAsync_simps)
    show "catch_rx p \<in> set (reactions ?w') \<and> state_of ?w' (Suc (Suc p)) = None"
      if "state_of ?w' p = None"
      using that d(7) by (simp add: runAsync_simps)
    show "((catch_rx p, s) \<in> set (microtasks ?w') \<and> state_of ?w' (Suc (Suc p)) = None)
          \<or> (state_of ?w' (Suc (Suc p)) = Some s
              \<and> (\<forall>e. s = Rejected e \<longrightarrow> e \<in> set (unhandled ?w')))"
      if "state_of ?w' p = Some s" for s
    proof -
      from that have "state_of w p = Some s" by (simp add: runAsync_simps)
      from d(8) [OF this] show ?thesis by (auto simp: runAsync_simps)
    qed
  qed
qed

lemma catch_inv_new:
  assumes "wf_world w"
  shows "catch_inv (next_promise w) (runAsyncResourceOp label callback serial w)"
proof -
  let ?w' = "runAsyncResourceOp label callback serial w"
  let ?p = "next_promise w"
  from assms have
    c: "resourceChain w < length (promises w)"
    and r: "\<And>r. r \<in> set (reactions w) \<Longrightarrow>
              rx_target r < length (promises w) \<and> rx_source r < length (promises w)"
    and j: "\<And>j. j \<in> set (microtasks w) \<Longrightarrow> rx_target (fst j) < length (promises w)"
    and i: "\<And>i. i \<in> set (started w) \<Longrightarrow> inv_op i < length (promises w)"
    unfolding wf_world_def by (blast, blast, blast, blast)
  show ?thesis
  proof (rule catch_invI)
    show "Suc (Suc ?p) < length (promises ?w')" by (simp add: runAsync_simps next_promise_def)
    show "resourceChain ?w' \<noteq> Suc (Suc ?p)"
      using c by (simp add: runAsync_simps next_promise_def)
    show "rx_source r \<noteq> Suc (Suc ?p)" if "r \<in> set (reactions ?w')" for r
      using that r [of r] c
      by (auto simp: runAsync_simps next_promise_def split: option.splits)
    show "r = catch_rx ?p" if "r \<in> set (reactions ?w')" "rx_target r = Suc (Suc ?p)" for r
      using that r [of r]
      by (auto simp: runAsync_simps next_promise_def split: option.splits)
    show "fst j = catch_rx ?p"
      if "j \<in> set (microtasks ?w')" "rx_target (fst j) = Suc (Suc ?p)" for j
      using that j [of j]
      by (auto simp: runAsync_simps next_promise_def split: option.splits)
    show "inv_op i \<noteq> Suc (Suc ?p)" if "i \<in> set (started ?w')" for i
      using that i [of i] by (simp add: runAsync_simps next_promise_def)
    show "catch_rx ?p \<in> set (reactions ?w') \<and> state_of ?w' (Suc (Suc ?p)) = None"
      by (simp add: runAsync_simps next_promise_def)
    show "((catch_rx ?p, s) \<in> set (microtasks ?w') \<and> state_of ?w' (Suc (Suc ?p)) = None)
          \<or> (state_of ?w' (Suc (Suc ?p)) = Some s
              \<and> (\<forall>e. s = Rejected e \<longrightarrow> e \<in> set (unhandled ?w')))"
      if "state_of ?w' ?p = Some s" for s
      using that by (simp add: runAsync_simps next_promise_def)
  qed
qed

lemma catch_inv_step:
  assumes "wf_world w" and "catch_inv p w"
  shows "catch_inv p (step e w)"
proof (cases e)
  case (Schedule label callback serial)
  with assms show ?thesis by (simp add: catch_inv_runAsyncResourceOp)
next
  case Tick
  show ?thesis
  proof (cases "microtasks w")
    case Nil
    with Tick assms show ?thesis by simp
  next
    case (Cons j js)
    let ?w0 = "w\<lparr> microtasks := js \<rparr>"
    have "catch_inv p (run_job j ?w0)"
    proof (cases "fst j = catch_rx p")
      case True
      have "run_job j ?w0 = settle (Suc (Suc p)) (snd j) ?w0"
        using True by (cases "snd j") (simp_all add: run_job_def Let_def)
      with catch_inv_catch_job [OF assms Cons True] show ?thesis by simp
    next
      case False
      have w0: "catch_inv p ?w0" using assms(2) Cons False by (rule catch_inv_pop)
      from catch_invD(5) [OF assms(2), of j] Cons False
      have t: "rx_target (fst j) \<noteq> Suc (Suc p)" by auto
      show ?thesis
      proof (cases j ?w0 rule: run_job_selected)
        case pass
        with w0 t show ?thesis by (simp add: catch_inv_settle)
      next
        case (link label callback ser)
        from catch_inv_started [OF w0, of "\<lparr> inv_label = label, inv_callback = callback,
               inv_op = rx_target (fst j) \<rparr>" ser "Some label"] t link(2)
        show ?thesis by simp
      next
        case (release tok')
        from w0 have "catch_inv p (?w0\<lparr> released := released ?w0 @ [tok'] \<rparr>)"
          by (rule catch_inv_released)
        with t release(2) show ?thesis by (simp add: catch_inv_settle)
      qed
    qed
    with Tick Cons show ?thesis by simp
  qed
next
  case (Complete q s)
  show ?thesis
  proof (cases "q \<in> inv_op ` set (started w)")
    case True
    with catch_invD(6) [OF assms(2)] have "q \<noteq> Suc (Suc p)" by auto
    with assms(2) Complete True show ?thesis by (simp add: catch_inv_settle)
  next
    case False
    with assms Complete show ?thesis by simp
  qed
qed

lemma catch_inv_run: "wf_world w \<Longrightarrow> catch_inv p w \<Longrightarrow> catch_inv p (run es w)"
  unfolding run_def by (induction es arbitrary: w) (simp_all add: catch_inv_step wf_step)

lemma tok_inv_op_settled:
  assumes "tok_inv p tok w" and "state_of w (Suc p) \<noteq> None"
  shows "state_of w p \<noteq> None \<and> state_of w (Suc p) = Some Fulfilled"
proof -
  note d = tok_invD [OF assms(1)]
  from d(6) assms(2) have rel: "tok \<in> set (released w)" and ff: "state_of w (Suc p) = Some Fulfilled"
    by (auto split: if_splits)
  from rel have "count_list (released w) tok \<noteq> 0"
    by (simp add: count_list_0_iff)
  with d(5) have "length (filter (\<lambda>r. r = final_rx p tok) (reactions w)) = 0"
    by arith
  then have "final_rx p tok \<notin> set (reactions w)"
    by (auto simp: filter_empty_conv)
  with d(7) ff show ?thesis by auto
qed

lemma tok_inv_held:
  assumes "tok_inv p tok w" and "state_of w p = None"
  shows "tok \<notin> set (released w)"
proof -
  note d = tok_invD [OF assms(1)]
  from d(7) assms(2) have "final_rx p tok \<in> set (reactions w)" by simp
  then have "filter (\<lambda>r. r = final_rx p tok) (reactions w) \<noteq> []"
    by (auto simp: filter_empty_conv)
  then have "length (filter (\<lambda>r. r = final_rx p tok) (reactions w)) \<noteq> 0"
    by simp
  with d(5) have "count_list (released w) tok = 0" by arith
  then show ?thesis by (simp add: count_list_0_iff)
qed

lemma tok_inv_released_once:
  assumes "wf_world w" and "tok_inv p tok w" and "state_of w p \<noteq> None" and "microtasks w = []"
  shows "count_list (released w) tok = 1"
proof -
  note d = tok_invD [OF assms(2)]
  have "final_rx p tok \<notin> set (reactions w)"
  proof
    assume "final_rx p tok \<in> set (reactions w)"
    with assms(1) have "state_of w (rx_source (final_rx p tok :: 'a reaction)) = None"
      unfolding wf_world_def by blast
    with assms(3) show False by simp
  qed
  then have "filter (\<lambda>r. r = final_rx p tok) (reactions w) = []"
    by (auto simp: filter_empty_conv)
  with d(5) assms(4) show ?thesis by simp
qed

lemma catch_inv_reported:
  assumes "catch_inv p w" and "state_of w p = Some (Rejected e)" and "microtasks w = []"
  shows "e \<in> set (unhandled w)"
  using catch_invD(8) [OF assms(1,2)] assms(3) by auto

lemma started_after_serial:
  assumes wf1: "wf_world w1" and ser: "is_serial w1 sa"
  shows "op_started (run es3 (runAsyncResourceOp lb cb sb (run es2 (runAsyncResourceOp la ca sa w1))))
           (next_promise (run es2 (runAsyncResourceOp la ca sa w1)))
         \<longrightarrow> state_of (run es3 (runAsyncResourceOp lb cb sb (run es2 (runAsyncResourceOp la ca sa w1))))
               (next_promise w1) \<noteq> None
           \<and> state_of (run es3 (runAsyncResourceOp lb cb sb (run es2 (runAsyncResourceOp la ca sa w1))))
               (Suc (next_promise w1)) = Some Fulfilled"
proof
  let ?w2 = "runAsyncResourceOp la ca sa w1"
  let ?w3 = "run es2 ?w2"
  let ?w4 = "runAsyncResourceOp lb cb sb ?w3"
  let ?w5 = "run es3 ?w4"
  let ?p = "next_promise w1"
  assume st: "op_started ?w5 (next_promise ?w3)"
  from wf1 have wf2: "wf_world ?w2" by (rule wf_runAsyncResourceOp)
  then have wf3: "wf_world ?w3" by (rule wf_run)
  then have wf4: "wf_world ?w4" by (rule wf_runAsyncResourceOp)
  have t2: "tok_inv ?p (tokens w1) ?w2" using wf1 by (rule tok_inv_new)
  have t3: "tok_inv ?p (tokens w1) ?w3" using wf2 t2 by (rule tok_inv_run)
  have t4: "tok_inv ?p (tokens w1) ?w4" using wf3 t3 by (rule tok_inv_runAsyncResourceOp)
  have t5: "tok_inv ?p (tokens w1) ?w5" using wf4 t4 by (rule tok_inv_run)
  have c: "resourceChain ?w2 = Suc ?p" using ser by (simp add: runAsync_simps)
  have b2: "blocked_by (resourceChain ?w2) ?w2" using wf1 ser by (rule blocked_after_serial)
  then have "blocked_by (resourceChain ?w2) ?w3" by (rule blocked_run)
  then have "blocked_by (resourceChain ?w2) ?w4" by (rule blocked_runAsyncResourceOp)
  then have b5: "blocked_by (Suc ?p) ?w5" unfolding c by (rule blocked_run)
  have "length (promises ?w2) \<le> length (promises ?w3)" by (rule length_run)
  then have far: "Suc (Suc ?p) < next_promise ?w3"
    by (simp add: runAsync_simps next_promise_def)
  have "state_of ?w5 (Suc ?p) \<noteq> None"
  proof
    assume "state_of ?w5 (Suc ?p) = None"
    with b5 have "\<forall>i \<in> set (started ?w5). inv_op i \<le> Suc (Suc ?p)"
      unfolding blocked_by_def by blast
    with st have "next_promise ?w3 \<le> Suc (Suc ?p)"
      by (auto simp: op_started_def)
    with far show False by simp
  qed
  with t5 show "state_of ?w5 ?p \<noteq> None \<and> state_of ?w5 (Suc ?p) = Some Fulfilled"
    by (rule tok_inv_op_settled)
qed

lemma wf_reachable: "wf_world (run es (init_world ser))"
  by (simp add: wf_run wf_init)

text \<open>
  A continuation whose preparation waits leaves the state alone; one whose preparation has
  finished hands its callback to \<^verbatim>\<open>runAsyncResourceOp\<close>, with no third argument.
\<close>

lemma run_task_waits:
  "preparation_of c (heap st) tk = None \<Longrightarrow> run_task c tk st = st"
  by (cases tk) (simp_all add: preparation_of_def run_task_def)

lemma run_task_queue:
  assumes "preparation_of c (heap st) tk = Some resop"
  shows "\<exists>l cb. queue (run_task c tk st) = runAsyncResourceOp l cb None (queue st)"
proof (cases tk)
  case (ReadTask res t name props opts)
  with assms have "queue (run_task c tk st)
                     = readResource_then c res t name props opts resop (queue st)"
    by (simp add: preparation_of_def run_task_def)
  then show ?thesis
    unfolding readResource_then_def Let_def by blast
next
  case (RegisterTask res t name custom props opts)
  with assms have "queue (run_task c tk st)
                     = registerResource_then res t name custom props opts resop (queue st)"
    by (simp add: preparation_of_def run_task_def)
  then show ?thesis
    unfolding registerResource_then_def Let_def by blast
qed

text \<open>
  Claim C5, for the order in which operations are handed to the queue. \<^verbatim>\<open>readResource\<close> and
  \<^verbatim>\<open>registerResource\<close> call \<^verbatim>\<open>runAsyncResourceOp\<close> from the continuation of the preparation,
  so that order is the order in which preparations finish, whatever the order of
  declaration.

  For the queue: take any state the queue can reach, a call of \<^verbatim>\<open>runAsyncResourceOp\<close> for an
  operation A in it, any events, a call for an operation B, and any further events. If A is
  serial (by its argument, or by \<^verbatim>\<open>serialize()\<close> when the argument is missing), then
  \<^verbatim>\<open>resourceChain\<close> is afterwards the pending promise \<^verbatim>\<open>finalOp\<close> of A, one promise put in
  the place of the former one; and in every later state in which the callback of B has been
  invoked, the promise \<^verbatim>\<open>resourceOp\<close> of A has settled and its \<^verbatim>\<open>finalOp\<close> is fulfilled. If A
  is not serial, the call leaves \<^verbatim>\<open>resourceChain\<close> as it was. With \<^verbatim>\<open>serialize()\<close> false, two
  operations scheduled one after the other (their promises are 1 and 4) both have their
  callbacks invoked while the first is still pending.

  For the client: a continuation whose preparation waits leaves the state alone. Take a
  state whose queue can be reached and in which \<^verbatim>\<open>serialize()\<close> holds, a continuation A
  whose preparation has finished, any events and any change of the heap after it has run, a
  continuation B whose preparation has finished by then, and any further events: in every
  later state in which the callback of B has been invoked, the promise \<^verbatim>\<open>resourceOp\<close> of A
  has settled and its \<^verbatim>\<open>finalOp\<close> is fulfilled.
\<close>

theorem serial_chain_order:
  fixes es1 es2 es3 :: "'cb event list"
    and fs1 fs2 fs3 :: "'r callback event list"
    and c :: "('s, 'r) codec"
  shows
  "(let w1 = run es1 (init_world ser);
        w2 = runAsyncResourceOp la ca sa w1;
        w3 = run es2 w2;
        w4 = runAsyncResourceOp lb cb sb w3;
        w5 = run es3 w4
    in (is_serial w1 sa \<longrightarrow>
          resourceChain w2 = Suc (next_promise w1) \<and> state_of w2 (resourceChain w2) = None
        \<and> (op_started w5 (next_promise w3) \<longrightarrow>
              state_of w5 (next_promise w1) \<noteq> None
            \<and> state_of w5 (resourceChain w2) = Some Fulfilled))
     \<and> (\<not> is_serial w1 sa \<longrightarrow> resourceChain w2 = resourceChain w1))
   \<and> (let w = run [Schedule la ca None, Schedule lb cb None, Tick, Tick] (init_world False)
      in op_started w 1 \<and> op_started w 4 \<and> state_of w 1 = None)
   \<and> (let st1 = run_task c tkA st0;
           st2 = st1\<lparr> heap := h, queue := run fs2 (queue st1) \<rparr>;
           st3 = run_task c tkB st2;
           w5 = run fs3 (queue st3)
       in (preparation_of c (heap st0) tkA = None \<longrightarrow> st1 = st0)
        \<and> (queue st0 = run fs1 (init_world ser) \<and> is_serial (queue st0) None
             \<and> preparation_of c (heap st0) tkA \<noteq> None \<and> preparation_of c h tkB \<noteq> None
           \<longrightarrow> op_started w5 (next_promise (queue st2))
           \<longrightarrow> state_of w5 (next_promise (queue st0)) \<noteq> None
               \<and> state_of w5 (Suc (next_promise (queue st0))) = Some Fulfilled))"
proof -
  let ?w1 = "run es1 (init_world ser)"
  let ?w2 = "runAsyncResourceOp la ca sa ?w1"
  let ?w3 = "run es2 ?w2"
  let ?w4 = "runAsyncResourceOp lb cb sb ?w3"
  let ?w5 = "run es3 ?w4"
  let ?p = "next_promise ?w1"
  have nonserial: "resourceChain ?w2 = resourceChain ?w1" if "\<not> is_serial ?w1 sa"
    using that by (simp add: runAsync_simps)
  have serial: "resourceChain ?w2 = Suc ?p \<and> state_of ?w2 (resourceChain ?w2) = None
        \<and> (op_started ?w5 (next_promise ?w3) \<longrightarrow>
              state_of ?w5 ?p \<noteq> None \<and> state_of ?w5 (resourceChain ?w2) = Some Fulfilled)"
    if ser: "is_serial ?w1 sa"
  proof -
    have c: "resourceChain ?w2 = Suc ?p" using ser by (simp add: runAsync_simps)
    have pend: "state_of ?w2 (resourceChain ?w2) = None"
      unfolding c by (simp add: runAsync_simps next_promise_def)
    from started_after_serial [OF wf_reachable ser, of es3 lb cb sb es2 la ca] c pend
    show ?thesis by simp
  qed
  have free: "let w = run [Schedule la ca None, Schedule lb cb None, Tick, Tick]
                        (init_world False :: 'cb world)
      in op_started w 1 \<and> op_started w 4 \<and> state_of w 1 = None"
    by (simp add: run_def runAsyncResourceOp_eq init_world_def state_of_def next_promise_def
          is_serial_def chain_link_def final_rx_def catch_rx_def run_job_def op_started_def
          Let_def)
  let ?st1 = "run_task c tkA st0"
  let ?st2 = "?st1\<lparr> heap := h, queue := run fs2 (queue ?st1) \<rparr>"
  let ?st3 = "run_task c tkB ?st2"
  let ?v5 = "run fs3 (queue ?st3)"
  have waits: "?st1 = st0" if "preparation_of c (heap st0) tkA = None"
    using that by (rule run_task_waits)
  have handed: "state_of ?v5 (next_promise (queue st0)) \<noteq> None
               \<and> state_of ?v5 (Suc (next_promise (queue st0))) = Some Fulfilled"
    if reach: "queue st0 = run fs1 (init_world ser)"
      and ser: "is_serial (queue st0) None"
      and pa: "preparation_of c (heap st0) tkA \<noteq> None"
      and pb: "preparation_of c h tkB \<noteq> None"
      and st: "op_started ?v5 (next_promise (queue ?st2))"
  proof -
    from pa obtain ra where "preparation_of c (heap st0) tkA = Some ra" by blast
    then obtain l1 c1 where q1: "queue ?st1 = runAsyncResourceOp l1 c1 None (queue st0)"
      using run_task_queue by blast
    from pb obtain rb where "preparation_of c (heap ?st2) tkB = Some rb" by auto
    then obtain l2 c2 where "queue ?st3 = runAsyncResourceOp l2 c2 None (queue ?st2)"
      using run_task_queue by blast
    then have q3: "queue ?st3
                     = runAsyncResourceOp l2 c2 None
                         (run fs2 (runAsyncResourceOp l1 c1 None (queue st0)))"
      by (simp add: q1)
    have q2: "queue ?st2 = run fs2 (runAsyncResourceOp l1 c1 None (queue st0))"
      by (simp add: q1)
    have wf0: "wf_world (queue st0)"
      unfolding reach by (rule wf_reachable)
    from started_after_serial [OF wf0 ser, of fs3 l2 c2 None fs2 l1 c1] st
    show ?thesis
      unfolding q3 q2 by blast
  qed
  from serial nonserial free waits handed show ?thesis
    unfolding Let_def by blast
qed

text \<open>
  Claim C8. For a call of \<^verbatim>\<open>runAsyncResourceOp\<close> in any state the queue can reach, serial or
  not: the call hands out a token that was not outstanding before, and the callback has not
  been invoked when the call returns; the token is outstanding as long as the promise
  \<^verbatim>\<open>resourceOp\<close> is pending; \<^verbatim>\<open>done\<close> is never called twice for it; once \<^verbatim>\<open>resourceOp\<close> has
  settled, fulfilled or rejected, and the microtasks have run, \<^verbatim>\<open>done\<close> has been called
  exactly once and \<^verbatim>\<open>finalOp\<close> is fulfilled, so the chain goes on; and the error of a rejected
  operation has by then been reported as an unhandled rejection.
\<close>

theorem keep_alive_token:
  fixes es1 es2 :: "'cb event list"
  shows
  "(let w1 = run es1 (init_world ser);
        p = next_promise w1;
        tok = tokens w1;
        w2 = runAsyncResourceOp label callback serial w1;
        w = run es2 w2
    in tok \<notin> outstanding w1 \<and> tok \<in> outstanding w2 \<and> \<not> op_started w2 p
     \<and> (state_of w p = None \<longrightarrow> tok \<in> outstanding w)
     \<and> count_list (released w) tok \<le> 1
     \<and> (state_of w p \<noteq> None \<and> microtasks w = [] \<longrightarrow>
          count_list (released w) tok = 1 \<and> tok \<notin> outstanding w
        \<and> state_of w (Suc p) = Some Fulfilled)
     \<and> (\<forall>e. state_of w p = Some (Rejected e) \<and> microtasks w = [] \<longrightarrow> e \<in> set (unhandled w)))"
proof -
  let ?w1 = "run es1 (init_world ser)"
  let ?w2 = "runAsyncResourceOp label callback serial ?w1"
  let ?w = "run es2 ?w2"
  let ?p = "next_promise ?w1"
  let ?tok = "tokens ?w1"
  have wf1: "wf_world ?w1" by (rule wf_reachable)
  then have wf2: "wf_world ?w2" by (rule wf_runAsyncResourceOp)
  then have wfw: "wf_world ?w" by (rule wf_run)
  have t2: "tok_inv ?p ?tok ?w2" using wf1 by (rule tok_inv_new)
  have t: "tok_inv ?p ?tok ?w" using wf2 t2 by (rule tok_inv_run)
  have c2: "catch_inv ?p ?w2" using wf1 by (rule catch_inv_new)
  have c: "catch_inv ?p ?w" using wf2 c2 by (rule catch_inv_run)
  have 1: "?tok \<notin> outstanding ?w1" by (simp add: outstanding_def)
  have "?tok \<notin> set (released ?w1)" using wf1 unfolding wf_world_def by blast
  then have 2: "?tok \<in> outstanding ?w2" by (simp add: outstanding_def runAsync_simps)
  have 3: "\<not> op_started ?w2 ?p"
  proof
    assume "op_started ?w2 ?p"
    then obtain i where "i \<in> set (started ?w1)" "inv_op i = ?p"
      by (auto simp: op_started_def runAsync_simps)
    with wf1 show False unfolding wf_world_def next_promise_def by auto
  qed
  have lt: "?tok < tokens ?w" using tok_invD(2) [OF t] .
  have 4: "?tok \<in> outstanding ?w" if "state_of ?w ?p = None"
    using tok_inv_held [OF t that] lt by (simp add: outstanding_def)
  have 5: "count_list (released ?w) ?tok \<le> 1"
    using tok_invD(5) [OF t] by simp
  have 6: "count_list (released ?w) ?tok = 1 \<and> ?tok \<notin> outstanding ?w
        \<and> state_of ?w (Suc ?p) = Some Fulfilled"
    if "state_of ?w ?p \<noteq> None \<and> microtasks ?w = []"
  proof -
    from that have one: "count_list (released ?w) ?tok = 1"
      using tok_inv_released_once [OF wfw t] by simp
    then have "count_list (released ?w) ?tok \<noteq> 0" by simp
    then have rel: "?tok \<in> set (released ?w)" by (simp add: count_list_0_iff)
    with tok_invD(6) [OF t] one show ?thesis by (simp add: outstanding_def)
  qed
  have 7: "e \<in> set (unhandled ?w)"
    if "state_of ?w ?p = Some (Rejected e) \<and> microtasks ?w = []" for e
    using that catch_inv_reported [OF c] by simp
  from 1 2 3 4 5 6 7 show ?thesis
    unfolding Let_def by blast
qed

text \<open>
  Claim C2, at the input where the code leaves it. \<^verbatim>\<open>registerResourceOutputs\<close> leaves
  \<^verbatim>\<open>resourceChain\<close> as it was, so its operation does not become part of the chain. Its
  callback, though, is chained on \<^verbatim>\<open>resourceChain\<close> like that of any other operation: while
  the \<^verbatim>\<open>finalOp\<close> of an earlier serial operation is pending, whatever else happens, the
  callback of \<^verbatim>\<open>registerResourceOutputs\<close> has not been invoked, and so its remote call has
  not been made.
\<close>

theorem registerResourceOutputs_waits_on_chain:
  fixes es1 es2 es3 :: "'r callback event list"
  shows
  "(let w1 = run es1 (init_world ser);
        w2 = runAsyncResourceOp la ca sa w1;
        w3 = run es2 w2;
        w4 = registerResourceOutputs res outputs w3;
        w5 = run es3 w4
    in resourceChain w4 = resourceChain w3
     \<and> (is_serial w1 sa \<and> state_of w5 (resourceChain w2) = None
          \<longrightarrow> \<not> op_started w5 (next_promise w3)))"
proof -
  let ?w1 = "run es1 (init_world ser)"
  let ?w2 = "runAsyncResourceOp la ca sa ?w1"
  let ?w3 = "run es2 ?w2"
  let ?w4 = "registerResourceOutputs res outputs ?w3"
  let ?w5 = "run es3 ?w4"
  have 1: "resourceChain ?w4 = resourceChain ?w3"
    by (simp add: registerResourceOutputs_def runAsync_simps is_serial_def)
  have 2: "\<not> op_started ?w5 (next_promise ?w3)"
    if "is_serial ?w1 sa \<and> state_of ?w5 (resourceChain ?w2) = None"
  proof
    assume st: "op_started ?w5 (next_promise ?w3)"
    from that have ser: "is_serial ?w1 sa" and pend: "state_of ?w5 (resourceChain ?w2) = None"
      by simp_all
    have c: "resourceChain ?w2 = Suc (next_promise ?w1)"
      using ser by (simp add: runAsync_simps)
    from started_after_serial [OF wf_reachable ser,
           of es3 "''monitor.registerResourceOutputs(...)''" "OutputsCallback res outputs"
              "Some False" es2 la ca] st
    have "state_of ?w5 (Suc (next_promise ?w1)) = Some Fulfilled"
      by (simp add: registerResourceOutputs_def)
    with pend c show False by simp
  qed
  from 1 2 show ?thesis unfolding Let_def by blast
qed

text \<open>The definitions that evaluate a run of the queue.\<close>

lemmas eval_defs =
  run_def runAsyncResourceOp_def promise_then_def new_promise_def rpcKeepAlive_def
  init_world_def state_of_def next_promise_def is_serial_def run_job_def settle_def
  op_started_def outstanding_def Let_def registerResourceOutputs_def registerResource_then_def

lemma run_Nil: "run [] w = w"
  by (simp add: run_def)

text \<open>The definitions that evaluate the example state of the client.\<close>

lemmas heap_defs =
  example_sdk_def example_opts_waiting_def example_opts_def example_heap_def init_sdk_def
  registerResource_def prepareResource_sync_def prepareResource_async_def await_urn_def
  resolveURN_of_def resolve_def empty_heap_def dependsOn_list_def example_codec_def
  new_Set_def set_add_def run_task_def

text \<open>
  The example state in which B, declared after A, was handed to the queue first: the
  callback of A (promise 4) is not invoked while the operation of B (promise 1) is pending,
  and once it has been invoked the operation of B has settled and its \<^verbatim>\<open>finalOp\<close>
  (promise 2) is fulfilled.
\<close>

theorem serial_chain_order_witness:
  "preparation_of example_codec (heap example_sdk)
      (RegisterTask 0 ''t'' ''a'' True [] example_opts_waiting) = None
   \<and> run_task example_codec (RegisterTask 0 ''t'' ''a'' True [] example_opts_waiting) example_sdk
       = example_sdk
   \<and> preparation_of example_codec (heap example_sdk)
        (RegisterTask 4 ''t'' ''b'' True [] example_opts) \<noteq> None
   \<and> is_serial (queue example_sdk) None
   \<and> tasks example_sdk_ba = []
   \<and> \<not> op_started (run [Tick, Tick] (queue example_sdk_ba)) 4
   \<and> op_started
        (run [Tick, Tick, Complete 1 Fulfilled, Tick, Tick, Tick] (queue example_sdk_ba)) 4
   \<and> state_of
        (run [Tick, Tick, Complete 1 Fulfilled, Tick, Tick, Tick] (queue example_sdk_ba)) 1
       \<noteq> None
   \<and> state_of
        (run [Tick, Tick, Complete 1 Fulfilled, Tick, Tick, Tick] (queue example_sdk_ba)) 2
       = Some Fulfilled"
proof -
  let ?bb = "\<lparr> resolveURN = resolveURN_of 4, resolveID = Some (resolveID_of 4),
               resolvers = [], parentURN = None, providerRef = None,
               serializedProps = [], dependencies = [''urn:B''] \<rparr>
             :: string list ResourceResolverOperation"
  let ?ba = "\<lparr> resolveURN = resolveURN_of 0, resolveID = Some (resolveID_of 0),
               resolvers = [], parentURN = None, providerRef = None,
               serializedProps = [], dependencies = [''urn:D''] \<rparr>
             :: string list ResourceResolverOperation"
  let ?lb = "''monitor.registerResource(resource:b[t])''"
  let ?la = "''monitor.registerResource(resource:a[t])''"
  let ?cb = "RegisterCallback (registerResource_request ''t'' ''b'' True example_opts ?bb)
               ?bb 4 ''t'' ''b'' []"
  let ?ca = "RegisterCallback (registerResource_request ''t'' ''a'' True example_opts_waiting ?ba)
               ?ba 0 ''t'' ''a'' []"
  let ?tb = "RegisterTask 4 ''t'' ''b'' True [] example_opts"
  let ?ta = "RegisterTask 0 ''t'' ''a'' True [] example_opts_waiting"
  let ?es = "[Tick, Tick, Complete 1 Fulfilled, Tick, Tick, Tick] :: string list callback event list"
  let ?w2 = "runAsyncResourceOp ?lb ?cb None (init_world True)"
  let ?w4 = "runAsyncResourceOp ?la ?ca None (run [Tick] ?w2)"
  let ?h = "resolveURN_of 3 ''urn:D'' (heap example_sdk_b)"
  have qb: "queue example_sdk_b = ?w2"
    by (simp add: example_sdk_b_def registerResource_then_def heap_defs)
  have hb: "heap example_sdk_b = prepareResource_sync 4 True
              (prepareResource_sync 0 True (prepareResource_sync 3 False example_heap))"
    by (simp add: example_sdk_b_def heap_defs)
  have tb: "tasks example_sdk_b = [?ta]"
    by (simp add: example_sdk_b_def heap_defs)
  have pa: "prepareResource_async example_codec ?h 0 True [] example_opts_waiting = Some ?ba"
    unfolding hb by (simp add: heap_defs)
  have q: "queue example_sdk_ba = ?w4"
    by (simp add: example_sdk_ba_def run_task_def pa registerResource_then_def qb)
  have t: "tasks example_sdk_ba = []"
    by (simp add: example_sdk_ba_def run_task_def pa tb)
  have n: "next_promise (init_world True :: string list callback world) = 1"
          "next_promise (run [Tick] ?w2) = 4"
          "resourceChain ?w2 = 2"
    by (simp_all add: eval_defs)
  have h1: "is_serial (init_world True :: string list callback world) None"
    by (simp add: eval_defs)
  have h2: "op_started (run ?es ?w4) 4"
    by (simp add: eval_defs)
  have h3: "\<not> op_started (run [Tick, Tick] ?w4) 4"
    by (simp add: eval_defs)
  have q0: "queue example_sdk = run [] (init_world True)"
    by (simp add: heap_defs run_Nil)
  have s0: "is_serial (queue example_sdk) None"
    unfolding q0 run_Nil by (rule h1)
  have pa0: "preparation_of example_codec (heap example_sdk) ?ta = None"
    by (simp add: preparation_of_def heap_defs)
  have pb0: "preparation_of example_codec (heap example_sdk) ?tb \<noteq> None"
    by (simp add: preparation_of_def heap_defs)
  have pa1: "preparation_of example_codec ?h ?ta \<noteq> None"
    by (simp add: preparation_of_def pa)
  let ?st2 = "example_sdk_b\<lparr> heap := ?h, queue := run [Tick] (queue example_sdk_b) \<rparr>"
  have st: "op_started (run ?es (queue example_sdk_ba)) (next_promise (queue ?st2))"
    using h2 by (simp add: q qb n)
  note T = serial_chain_order
          [where ser = True and ?es1.0 = "[]" and la = ?lb and ca = ?cb and sa = None
             and ?es2.0 = "[Tick]" and lb = ?la and cb = ?ca and sb = None and ?es3.0 = ?es
             and c = example_codec and ?st0.0 = example_sdk and h = ?h
             and ?fs1.0 = "[]" and ?fs2.0 = "[Tick]" and ?fs3.0 = ?es]
  from T [where tkA = ?ta and tkB = ?ta] pa0
  have w: "run_task example_codec ?ta example_sdk = example_sdk"
    unfolding Let_def by blast
  from T [where tkA = ?tb and tkB = ?ta] q0 s0 pb0 pa1 st
  have c: "state_of (run ?es (queue example_sdk_ba)) (next_promise (queue example_sdk)) \<noteq> None
         \<and> state_of (run ?es (queue example_sdk_ba)) (Suc (next_promise (queue example_sdk)))
             = Some Fulfilled"
    unfolding Let_def example_sdk_ba_def example_sdk_b_def by blast
  have n0: "next_promise (queue example_sdk) = 1"
    unfolding q0 run_Nil by (rule n(1))
  from c have c': "state_of (run ?es (queue example_sdk_ba)) 1 \<noteq> None
                 \<and> state_of (run ?es (queue example_sdk_ba)) 2 = Some Fulfilled"
    unfolding n0 Suc_1 .
  from h2 h3 have h': "op_started (run ?es (queue example_sdk_ba)) 4"
                      "\<not> op_started (run [Tick, Tick] (queue example_sdk_ba)) 4"
    unfolding q by blast+
  from pa0 w pb0 s0 t h' c' show ?thesis
    by blast
qed

theorem keep_alive_token_witness:
  "state_of (run [Tick, Complete 1 (Rejected (Error ''boom'')), Tick, Tick]
               (runAsyncResourceOp ''A'' () None (run [] (init_world True))))
            (next_promise (run [] (init_world True :: unit world)))
     = Some (Rejected (Error ''boom''))
   \<and> microtasks (run [Tick, Complete 1 (Rejected (Error ''boom'')), Tick, Tick]
                   (runAsyncResourceOp ''A'' () None (run [] (init_world True :: unit world)))) = []
   \<and> count_list (released (run [Tick, Complete 1 (Rejected (Error ''boom'')), Tick, Tick]
                   (runAsyncResourceOp ''A'' () None (run [] (init_world True :: unit world)))))
        (tokens (run [] (init_world True :: unit world))) = 1
   \<and> Error ''boom'' \<in> set (unhandled (run [Tick, Complete 1 (Rejected (Error ''boom'')), Tick, Tick]
                   (runAsyncResourceOp ''A'' () None (run [] (init_world True :: unit world)))))
   \<and> state_of (run [Tick, Complete 1 (Rejected (Error ''boom'')), Tick, Tick]
               (runAsyncResourceOp ''A'' () None (run [] (init_world True :: unit world))))
            (Suc (next_promise (run [] (init_world True :: unit world))))
     = Some Fulfilled"
proof -
  have h1: "state_of (run [Tick, Complete 1 (Rejected (Error ''boom'')), Tick, Tick]
               (runAsyncResourceOp ''A'' () None (run [] (init_world True))))
            (next_promise (run [] (init_world True :: unit world)))
     = Some (Rejected (Error ''boom''))"
    by (simp add: eval_defs)
  have h2: "microtasks (run [Tick, Complete 1 (Rejected (Error ''boom'')), Tick, Tick]
                   (runAsyncResourceOp ''A'' () None (run [] (init_world True :: unit world)))) = []"
    by (simp add: eval_defs)
  from keep_alive_token
          [where ser = True and ?es1.0 = "[]" and label = "''A''" and callback = "()"
             and serial = None
             and ?es2.0 = "[Tick, Complete 1 (Rejected (Error ''boom'')), Tick, Tick]"]
       h1 h2
  show ?thesis
    unfolding Let_def by auto
qed

theorem registerResourceOutputs_waits_on_chain_witness:
  "is_serial (run [] (init_world True :: string list callback world)) None
   \<and> state_of
        (run [Tick, Tick, Tick]
          (registerResourceOutputs 0 (Obj [])
            (run [Tick]
              (runAsyncResourceOp ''monitor.registerResource(resource:b[t])''
                 (RegisterCallback
                    (registerResource_request ''t'' ''b'' True example_opts example_bundle)
                    example_bundle 1 ''t'' ''b'' [])
                 None (run [] (init_world True))))))
        (resourceChain
           (runAsyncResourceOp ''monitor.registerResource(resource:b[t])''
                 (RegisterCallback
                    (registerResource_request ''t'' ''b'' True example_opts example_bundle)
                    example_bundle 1 ''t'' ''b'' [])
                 None (run [] (init_world True)))) = None
   \<and> \<not> op_started
        (run [Tick, Tick, Tick]
          (registerResourceOutputs 0 (Obj [])
            (run [Tick]
              (runAsyncResourceOp ''monitor.registerResource(resource:b[t])''
                 (RegisterCallback
                    (registerResource_request ''t'' ''b'' True example_opts example_bundle)
                    example_bundle 1 ''t'' ''b'' [])
                 None (run [] (init_world True))))))
        (next_promise
            (run [Tick]
              (runAsyncResourceOp ''monitor.registerResource(resource:b[t])''
                 (RegisterCallback
                    (registerResource_request ''t'' ''b'' True example_opts example_bundle)
                    example_bundle 1 ''t'' ''b'' [])
                 None (run [] (init_world True)))))"
proof -
  have h1: "is_serial (run [] (init_world True :: string list callback world)) None"
    by (simp add: eval_defs)
  have h2: "state_of
        (run [Tick, Tick, Tick]
          (registerResourceOutputs 0 (Obj [])
            (run [Tick]
              (runAsyncResourceOp ''monitor.registerResource(resource:b[t])''
                 (RegisterCallback
                    (registerResource_request ''t'' ''b'' True example_opts example_bundle)
                    example_bundle 1 ''t'' ''b'' [])
                 None (run [] (init_world True))))))
        (resourceChain
           (runAsyncResourceOp ''monitor.registerResource(resource:b[t])''
                 (RegisterCallback
                    (registerResource_request ''t'' ''b'' True example_opts example_bundle)
                    example_bundle 1 ''t'' ''b'' [])
                 None (run [] (init_world True)))) = None"
    by (simp add: eval_defs)
  from registerResourceOutputs_waits_on_chain
          [where ser = True and ?es1.0 = "[]"
             and la = "''monitor.registerResource(resource:b[t])''"
             and ca = "RegisterCallback
                         (registerResource_request ''t'' ''b'' True example_opts example_bundle)
                         example_bundle 1 ''t'' ''b'' []"
             and sa = None and ?es2.0 = "[Tick]" and res = 0 and outputs = "Obj []"
             and ?es3.0 = "[Tick, Tick, Tick]"]
       h1 h2
  show ?thesis
    unfolding Let_def by blast
qed

text \<open>
  The run of the witness, evaluated: the registration of resource 1 is serial and its remote
  call is outstanding when \<^verbatim>\<open>registerResourceOutputs\<close> is called for resource 0; three
  microtask turns later the callback of the latter (promise 4) has not been invoked and no
  microtask is left; it is invoked once the registration has completed.
\<close>

theorem registerResourceOutputs_delayed_example:
  "op_started
     (run [Tick]
        (registerResource_then 1 ''t'' ''b'' True [] example_opts example_bundle
           (init_world True))) 1
   \<and> \<not> op_started
        (run [Tick, Tick, Tick]
          (registerResourceOutputs 0 (Obj [])
            (run [Tick]
              (registerResource_then 1 ''t'' ''b'' True [] example_opts example_bundle
                (init_world True))))) 4
   \<and> microtasks
        (run [Tick, Tick, Tick]
          (registerResourceOutputs 0 (Obj [])
            (run [Tick]
              (registerResource_then 1 ''t'' ''b'' True [] example_opts example_bundle
                (init_world True))))) = []
   \<and> op_started
        (run [Complete 1 Fulfilled, Tick, Tick, Tick]
          (registerResourceOutputs 0 (Obj [])
            (run [Tick]
              (registerResource_then 1 ''t'' ''b'' True [] example_opts example_bundle
                (init_world True))))) 4"
  by (simp add: eval_defs)

subsection \<open>The order of declaration and the order of the chain\<close>

text \<open>
  Claim C5 as it is stated, for the order of declaration, fails. In the example state
  \<^verbatim>\<open>serialize()\<close> is true and A was declared before B; the continuation of A cannot run,
  since the URN that A depends on is pending; the continuation of B can, and after it and
  one microtask the callback of B is the only one that has been invoked, while A has not
  been handed to the queue and has no URN.
\<close>

theorem later_declaration_runs_first:
  "serialize (queue example_sdk)
   \<and> tasks example_sdk
     = [RegisterTask 0 ''t'' ''a'' True [] example_opts_waiting,
        RegisterTask 4 ''t'' ''b'' True [] example_opts]
   \<and> run_task example_codec (RegisterTask 0 ''t'' ''a'' True [] example_opts_waiting) example_sdk
     = example_sdk
   \<and> tasks example_sdk_b = [RegisterTask 0 ''t'' ''a'' True [] example_opts_waiting]
   \<and> await_urn (heap example_sdk_b) 0 = None
   \<and> map inv_label (started (run [Tick] (queue example_sdk_b)))
     = [''monitor.registerResource(resource:b[t])'']"
  by (simp add: eval_defs heap_defs example_sdk_b_def)

end
